theory Spec2Isabelle
  imports Complex_Main "HOL-Library.Multiset"
begin

section \<open>Python strings\<close>

text \<open>
  A Python \<^verbatim>\<open>str\<close> is modelled as a \<^typ>\<open>string\<close>: a list of characters, each
  standing for one code point in the range U+0000 .. U+00FF, so that \<^const>\<open>length\<close>
  is Python's \<^verbatim>\<open>len\<close>. The character predicates below are those of CPython
  on that range.
\<close>

definition code_point :: "char \<Rightarrow> nat" where
  "code_point c = of_char c"

text \<open>\<^verbatim>\<open>str.isspace\<close> on one character; also the class \<^verbatim>\<open>\s\<close> of \<^verbatim>\<open>re\<close>.\<close>

definition isspace :: "char \<Rightarrow> bool" where
  "isspace c = (let n = code_point c in
     (9 \<le> n \<and> n \<le> 13) \<or> (28 \<le> n \<and> n \<le> 32) \<or> n = 133 \<or> n = 160)"

text \<open>\<^verbatim>\<open>s.lstrip(chars)\<close>, \<^verbatim>\<open>s.rstrip(chars)\<close> with the set of characters as a predicate.\<close>

definition lstrip_where :: "(char \<Rightarrow> bool) \<Rightarrow> string \<Rightarrow> string" where
  "lstrip_where P s = dropWhile P s"

definition rstrip_where :: "(char \<Rightarrow> bool) \<Rightarrow> string \<Rightarrow> string" where
  "rstrip_where P s = rev (dropWhile P (rev s))"

text \<open>\<^verbatim>\<open>s.strip()\<close>: whitespace removed at both ends.\<close>

definition str_strip :: "string \<Rightarrow> string" where
  "str_strip s = rstrip_where isspace (lstrip_where isspace s)"

text \<open>\<^verbatim>\<open>c.lower()\<close> for one character of the range, and \<^verbatim>\<open>s.lower()\<close>.\<close>

definition char_lower :: "char \<Rightarrow> char" where
  "char_lower c = (let n = code_point c in
     if (65 \<le> n \<and> n \<le> 90) \<or> (192 \<le> n \<and> n \<le> 222 \<and> n \<noteq> 215)
     then char_of (n + 32) else c)"

definition str_lower :: "string \<Rightarrow> string" where
  "str_lower s = map char_lower s"

text \<open>\<^verbatim>\<open>s.startswith(p)\<close> and the substring test \<^verbatim>\<open>p in s\<close>.\<close>

definition startswith :: "string \<Rightarrow> string \<Rightarrow> bool" where
  "startswith s p = (take (length p) s = p)"

fun str_in :: "string \<Rightarrow> string \<Rightarrow> bool" where
  "str_in p [] = (p = [])"
| "str_in p (c # cs) = (startswith (c # cs) p \<or> str_in p cs)"

text \<open>\<^verbatim>\<open>str(n)\<close> for an integer: decimal digits, with a sign for negative numbers.\<close>

definition digit_char :: "nat \<Rightarrow> char" where
  "digit_char d = ''0123456789'' ! d"

fun str_nat :: "nat \<Rightarrow> string" where
  "str_nat n = (if n < 10 then [digit_char n] else str_nat (n div 10) @ [digit_char (n mod 10)])"

declare str_nat.simps [simp del]

definition str_int :: "int \<Rightarrow> string" where
  "str_int i = (if i < 0 then CHR ''-'' # str_nat (nat (- i)) else str_nat (nat i))"

text \<open>
  Truthiness of an \<^verbatim>\<open>Optional[str]\<close>: \<^verbatim>\<open>None\<close> and the empty string are falsy.
\<close>

fun truthy :: "string option \<Rightarrow> bool" where
  "truthy None = False"
| "truthy (Some s) = (s \<noteq> [])"

text \<open>
  \<^verbatim>\<open>re.sub(r"\s{3,}", "\n\n", s)\<close>: scanning from the left, every maximal run of
  three or more whitespace characters is replaced by two line feeds; a shorter run
  is copied.
\<close>

function collapse_ws :: "string \<Rightarrow> string" where
  "collapse_ws [] = []"
| "collapse_ws (c # cs) =
     (if isspace c then
        (let run = takeWhile isspace (c # cs); rest = dropWhile isspace (c # cs)
         in (if 3 \<le> length run then [CHR 0x0A, CHR 0x0A] else run) @ collapse_ws rest)
      else c # collapse_ws cs)"
  by pat_completeness auto
termination
  by (relation "measure length") (auto simp: length_dropWhile_le less_Suc_eq_le)

section \<open>Exceptions and outcomes\<close>

text \<open>
  A call either raises or returns. An exception carries the handler class it is an
  instance of (what the \<^verbatim>\<open>except\<close> clauses of the program test, in their order),
  the name of its own class and its message. Only exceptions deriving from
  \<^verbatim>\<open>Exception\<close> are modelled.
\<close>

datatype exn_class =
  TimeoutException | InvalidURL | RequestError | ValidationError | FileDataError | OtherError

datatype pyexn = PyExn (exn_cls: exn_class) (cls_name: string) (message: string)

datatype 'a outcome = Raises pyexn | Returns 'a

section \<open>Configuration\<close>

text \<open>
  The class \<^verbatim>\<open>Config\<close>. The two float settings are finite floats, hence rationals,
  read here as reals; how Python prints a float is left to the parameters
  \<open>float_str\<close> (the \<^verbatim>\<open>str\<close> of a float), \<open>fmt_2f\<close> and \<open>fmt_0f\<close>.
\<close>

record config =
  REQUEST_TIMEOUT_S :: real
  CONCURRENCY :: int
  MAX_URLS :: int
  MAX_PDF_SIZE_MB :: real
  float_str :: "real \<Rightarrow> string"
  fmt_2f :: "real \<Rightarrow> string"
  fmt_0f :: "real \<Rightarrow> string"

section \<open>Data model\<close>

datatype status = Success | Error

record ScrapeItem =
  source_url :: string
  status :: status
  scraped_text :: "string option"
  error_message :: "string option"

text \<open>
  The constructor of the pydantic model: \<^verbatim>\<open>source_url\<close> is declared with
  \<^verbatim>\<open>max_length=2000\<close>, so a longer value raises a validation error.
\<close>

definition ScrapeItem_new ::
  "string \<Rightarrow> status \<Rightarrow> string option \<Rightarrow> string option \<Rightarrow> ScrapeItem outcome" where
  "ScrapeItem_new url st txt err =
     (if length url > 2000
      then Raises (PyExn ValidationError ''ValidationError'' ''source_url'')
      else Returns \<lparr>source_url = url, status = st, scraped_text = txt, error_message = err\<rparr>)"

section \<open>The URL parser of the standard library\<close>

text \<open>
  \<^verbatim>\<open>urllib.parse.urlsplit\<close> and \<^verbatim>\<open>urlunsplit\<close> of CPython 3.11, for \<^verbatim>\<open>str\<close>
  arguments and the default arguments \<^verbatim>\<open>scheme=''\<close>, \<^verbatim>\<open>allow_fragments=True\<close>. Two
  checks of \<^verbatim>\<open>urlsplit\<close> call further libraries and are parameters:
  \<open>check_bracketed_host\<close> (\<^verbatim>\<open>ipaddress\<close> and a regular expression decide whether
  the text between brackets is an IPv6 or IPvFuture address) and \<open>nfkc\<close>
  (\<^verbatim>\<open>unicodedata.normalize('NFKC', n)\<close>).
\<close>

record urllib =
  check_bracketed_host :: "string \<Rightarrow> bool"
  nfkc :: "string \<Rightarrow> string"

record SplitResult =
  scheme :: string
  netloc :: string
  path :: string
  query :: string
  fragment :: string

definition WHATWG_C0_CONTROL_OR_SPACE :: "char \<Rightarrow> bool" where
  "WHATWG_C0_CONTROL_OR_SPACE c = (code_point c \<le> 32)"

definition UNSAFE_URL_BYTES_TO_REMOVE :: "char list" where
  "UNSAFE_URL_BYTES_TO_REMOVE = [CHR 0x09, CHR 0x0D, CHR 0x0A]"

definition ascii_alpha :: "char \<Rightarrow> bool" where
  "ascii_alpha c = (let n = code_point c in (65 \<le> n \<and> n \<le> 90) \<or> (97 \<le> n \<and> n \<le> 122))"

definition ascii_digit :: "char \<Rightarrow> bool" where
  "ascii_digit c = (let n = code_point c in 48 \<le> n \<and> n \<le> 57)"

definition scheme_chars :: "char \<Rightarrow> bool" where
  "scheme_chars c = (ascii_alpha c \<or> ascii_digit c \<or> c \<in> set ''+-.'')"

definition isascii :: "string \<Rightarrow> bool" where
  "isascii s = (\<forall>c \<in> set s. code_point c < 128)"

text \<open>\<^verbatim>\<open>s.find(c)\<close>: the index of the first occurrence, \<open>None\<close> for \<^verbatim>\<open>-1\<close>.\<close>

definition str_find :: "char \<Rightarrow> string \<Rightarrow> nat option" where
  "str_find c s = (if c \<in> set s then Some (length (takeWhile (\<lambda>x. x \<noteq> c) s)) else None)"

text \<open>\<^verbatim>\<open>s.split(c, 1)\<close> for a string that contains \<open>c\<close>.\<close>

definition split_first :: "char \<Rightarrow> string \<Rightarrow> string \<times> string" where
  "split_first c s = (takeWhile (\<lambda>x. x \<noteq> c) s, drop 1 (dropWhile (\<lambda>x. x \<noteq> c) s))"

text \<open>
  \<^verbatim>\<open>_splitnetloc(url, 2)\<close>: the network location runs from index 2 to the first of
  \<^verbatim>\<open>/\<close>, \<^verbatim>\<open>?\<close>, \<^verbatim>\<open>#\<close>, or to the end.
\<close>

definition splitnetloc :: "string \<Rightarrow> string \<times> string" where
  "splitnetloc url =
     (takeWhile (\<lambda>c. c \<notin> set ''/?#'') (drop 2 url), dropWhile (\<lambda>c. c \<notin> set ''/?#'') (drop 2 url))"

text \<open>\<^verbatim>\<open>_checknetloc\<close>: \<open>True\<close> when it returns, \<open>False\<close> when it raises \<^verbatim>\<open>ValueError\<close>.\<close>

definition checknetloc :: "urllib \<Rightarrow> string \<Rightarrow> bool" where
  "checknetloc ul nl =
     (if nl = [] \<or> isascii nl then True
      else
        (let n = filter (\<lambda>c. c \<notin> set ''@:#?'') nl; netloc2 = nfkc ul n
         in if n = netloc2 then True else \<not> (\<exists>c \<in> set ''/?#@:''. c \<in> set netloc2)))"

text \<open>
  The bracket checks on the network location: \<open>True\<close> when they pass, \<open>False\<close> when
  one raises \<^verbatim>\<open>ValueError\<close>.
\<close>

definition check_brackets :: "urllib \<Rightarrow> string \<Rightarrow> bool" where
  "check_brackets ul nl =
     (if (CHR ''['' \<in> set nl \<and> CHR '']'' \<notin> set nl) \<or> (CHR '']'' \<in> set nl \<and> CHR ''['' \<notin> set nl)
      then False
      else if CHR ''['' \<in> set nl \<and> CHR '']'' \<in> set nl
      then check_bracketed_host ul
             (takeWhile (\<lambda>x. x \<noteq> CHR '']'') (drop 1 (dropWhile (\<lambda>x. x \<noteq> CHR ''['') nl)))
      else True)"

text \<open>The scheme, when the text before the first colon is one, and the rest.\<close>

definition split_scheme :: "string \<Rightarrow> string \<times> string" where
  "split_scheme url =
     (case str_find CHR '':'' url of
        None \<Rightarrow> ([], url)
      | Some i \<Rightarrow>
          (if i > 0 \<and> ascii_alpha (hd url) \<and> (\<forall>c \<in> set (take i url). scheme_chars c)
           then (str_lower (take i url), drop (i + 1) url)
           else ([], url)))"

text \<open>\<^verbatim>\<open>urlsplit(url)\<close>; \<open>None\<close> when it raises \<^verbatim>\<open>ValueError\<close>.\<close>

definition urlsplit :: "urllib \<Rightarrow> string \<Rightarrow> SplitResult option" where
  "urlsplit ul url0 =
     (let url1 = lstrip_where WHATWG_C0_CONTROL_OR_SPACE url0;
          url2 = filter (\<lambda>c. c \<notin> set UNSAFE_URL_BYTES_TO_REMOVE) url1;
          (sch, url3) = split_scheme url2;
          (nl, url4) = (if take 2 url3 = ''//'' then splitnetloc url3 else ([], url3))
      in if take 2 url3 = ''//'' \<and> \<not> check_brackets ul nl then None
         else
           (let (url5, frag) = (if CHR ''#'' \<in> set url4 then split_first CHR ''#'' url4 else (url4, []));
                (url6, qu) = (if CHR ''?'' \<in> set url5 then split_first CHR ''?'' url5 else (url5, []))
            in if \<not> checknetloc ul nl then None
               else Some \<lparr>scheme = sch, netloc = nl, path = url6, query = qu, fragment = frag\<rparr>))"

definition uses_netloc :: "string list" where
  "uses_netloc = ['''', ''ftp'', ''http'', ''gopher'', ''nntp'', ''telnet'',
     ''imap'', ''wais'', ''file'', ''mms'', ''https'', ''shttp'',
     ''snews'', ''prospero'', ''rtsp'', ''rtsps'', ''rtspu'', ''rsync'',
     ''svn'', ''svn+ssh'', ''sftp'', ''nfs'', ''git'', ''git+ssh'',
     ''ws'', ''wss'']"

definition urlunsplit :: "SplitResult \<Rightarrow> string" where
  "urlunsplit p =
     (let url = path p;
          url = (if netloc p \<noteq> [] \<or> (scheme p \<noteq> [] \<and> scheme p \<in> set uses_netloc) \<or> take 2 url = ''//''
                 then ''//'' @ netloc p @ (if url \<noteq> [] \<and> take 1 url \<noteq> ''/'' then ''/'' @ url else url)
                 else url);
          url = (if scheme p \<noteq> [] then scheme p @ '':'' @ url else url);
          url = (if query p \<noteq> [] then url @ ''?'' @ query p else url);
          url = (if fragment p \<noteq> [] then url @ ''#'' @ fragment p else url)
      in url)"

section \<open>URL extraction utilities\<close>

text \<open>The characters of \<^verbatim>\<open>_TRAILING_PUNCT\<close>: \<^verbatim>\<open>)],.;:>"'\<close>.\<close>

definition TRAILING_PUNCT :: "char list" where
  "TRAILING_PUNCT = [CHR '')'', CHR '']'', CHR '','', CHR ''.'', CHR '';'', CHR '':'', CHR ''>'',
     CHR 0x22, CHR 0x27]"

definition strip_trailing_punct :: "string \<Rightarrow> string" where
  "strip_trailing_punct url = rstrip_where (\<lambda>c. c \<in> set TRAILING_PUNCT) url"

definition normalize_url :: "urllib \<Rightarrow> string \<Rightarrow> string option" where
  "normalize_url ul raw0 =
     (let raw1 = str_strip raw0;
          raw2 = strip_trailing_punct raw1;
          raw3 = (if startswith (str_lower raw2) ''www.'' then ''http://'' @ raw2 else raw2)
      in case urlsplit ul raw3 of
           None \<Rightarrow> None
         | Some parts \<Rightarrow>
             (if scheme parts \<notin> {''http'', ''https''} then None
              else if netloc parts = [] then None
              else Some (urlunsplit (parts\<lparr>fragment := []\<rparr>))))"

text \<open>
  The pattern \<^verbatim>\<open>_URL_RE\<close>,
  \<^verbatim>\<open>(?:https?://|www\.)[\w.-]+(?::\d{2,5})?(?:/[^\s<]*)?\<close> with \<^verbatim>\<open>re.IGNORECASE\<close>.
  \<open>word_char\<close> is the class \<^verbatim>\<open>\w\<close> and \<open>ascii_digit\<close> the class \<^verbatim>\<open>\d\<close> on the
  modelled range. Every part after the host is optional and greedy, so a match attempt
  never backtracks: \<open>match_URL_RE s\<close> is the length of the match at the start of
  \<open>s\<close>.
\<close>

definition word_char :: "char \<Rightarrow> bool" where
  "word_char c = (let n = code_point c in
     ascii_alpha c \<or> ascii_digit c \<or> n = 95 \<or> n = 170 \<or> n = 178 \<or> n = 179 \<or> n = 181 \<or>
     n = 185 \<or> n = 186 \<or> (188 \<le> n \<and> n \<le> 190) \<or> (192 \<le> n \<and> n \<noteq> 215 \<and> n \<noteq> 247))"

definition match_prefix :: "string \<Rightarrow> nat option" where
  "match_prefix s =
     (if str_lower (take 8 s) = ''https://'' then Some 8
      else if str_lower (take 7 s) = ''http://'' then Some 7
      else if str_lower (take 4 s) = ''www.'' then Some 4
      else None)"

definition match_port :: "string \<Rightarrow> nat" where
  "match_port s =
     (case s of
        [] \<Rightarrow> 0
      | c # ds \<Rightarrow>
          (if c = CHR '':'' \<and> 2 \<le> length (takeWhile ascii_digit (take 5 ds))
           then 1 + length (takeWhile ascii_digit (take 5 ds)) else 0))"

definition match_path :: "string \<Rightarrow> nat" where
  "match_path s =
     (case s of
        [] \<Rightarrow> 0
      | c # ps \<Rightarrow>
          (if c = CHR ''/'' then 1 + length (takeWhile (\<lambda>x. \<not> isspace x \<and> x \<noteq> CHR ''<'') ps) else 0))"

definition match_URL_RE :: "string \<Rightarrow> nat option" where
  "match_URL_RE s =
     (case match_prefix s of
        None \<Rightarrow> None
      | Some p \<Rightarrow>
          (let host = takeWhile (\<lambda>c. word_char c \<or> c = CHR ''.'' \<or> c = CHR ''-'') (drop p s)
           in if host = [] then None
              else
                (let port = match_port (drop (p + length host) s);
                     pth = match_path (drop (p + length host + port) s)
                 in Some (p + length host + port + pth))))"

text \<open>\<^verbatim>\<open>_URL_RE.findall(text)\<close>: the matches from left to right, without overlap.\<close>

function findall :: "string \<Rightarrow> string list" where
  "findall [] = []"
| "findall (c # cs) =
     (case match_URL_RE (c # cs) of
        None \<Rightarrow> findall cs
      | Some n \<Rightarrow> take n (c # cs) # findall (drop n (c # cs)))"
  by pat_completeness auto
termination
  by (relation "measure length")
     (auto simp: match_URL_RE_def match_prefix_def Let_def split: option.splits if_splits)

text \<open>
  The document parser. \<open>fitz_open\<close> is \<^verbatim>\<open>fitz.open(stream=pdf_bytes, filetype="pdf")\<close>;
  a page answers \<^verbatim>\<open>get_text("text")\<close> and \<^verbatim>\<open>get_links()\<close>, a link is the value of
  \<^verbatim>\<open>link.get("uri")\<close>. A document that has been opened is the list of its pages.
\<close>

record page =
  get_text :: "string option outcome"
  get_links :: "string option list option outcome"

text \<open>
  The set \<^verbatim>\<open>urls\<close> is kept as a list without repetitions. The order in which
  \<^verbatim>\<open>list(urls)\<close> enumerates it and the draws of \<^verbatim>\<open>random.shuffle\<close> are
  parameters: \<open>set_rank\<close> places the elements, \<open>randbelow i\<close> is the number drawn
  when the loop of \<^verbatim>\<open>shuffle\<close> is at index \<open>i\<close>.
\<close>

record runtime =
  fitz_open :: "string \<Rightarrow> page list outcome"
  set_rank :: "string \<Rightarrow> nat"
  randbelow :: "nat \<Rightarrow> nat"

definition set_add :: "string \<Rightarrow> string list \<Rightarrow> string list" where
  "set_add x xs = (if x \<in> set xs then xs else xs @ [x])"

definition add_normalized :: "urllib \<Rightarrow> string list \<Rightarrow> string \<Rightarrow> string list" where
  "add_normalized ul urls raw =
     (let norm = normalize_url ul raw in if truthy norm then set_add (the norm) urls else urls)"

definition page_text_urls :: "urllib \<Rightarrow> page \<Rightarrow> string list \<Rightarrow> string list" where
  "page_text_urls ul pg urls =
     (case get_text pg of
        Raises e \<Rightarrow> urls
      | Returns t \<Rightarrow> foldl (add_normalized ul) urls (findall (case t of None \<Rightarrow> [] | Some s \<Rightarrow> s)))"

definition page_link_urls :: "urllib \<Rightarrow> page \<Rightarrow> string list \<Rightarrow> string list" where
  "page_link_urls ul pg urls =
     (case get_links pg of
        Raises e \<Rightarrow> urls
      | Returns ls \<Rightarrow>
          foldl (\<lambda>acc uri. if truthy uri then add_normalized ul acc (the uri) else acc) urls
            (case ls of None \<Rightarrow> [] | Some l \<Rightarrow> l))"

text \<open>\<^verbatim>\<open>random.shuffle(x)\<close>: for \<open>i\<close> from \<open>len(x) - 1\<close> down to 1, exchange \<open>x[i]\<close> and \<open>x[j]\<close>.\<close>

fun shuffle_loop :: "(nat \<Rightarrow> nat) \<Rightarrow> nat \<Rightarrow> string list \<Rightarrow> string list" where
  "shuffle_loop rb 0 x = x"
| "shuffle_loop rb (Suc i) x =
     (let j = rb (Suc i) mod (Suc i + 1) in shuffle_loop rb i (x[Suc i := x ! j, j := x ! Suc i]))"

definition shuffle :: "(nat \<Rightarrow> nat) \<Rightarrow> string list \<Rightarrow> string list" where
  "shuffle rb x = shuffle_loop rb (length x - 1) x"

text \<open>The slice \<^verbatim>\<open>xs[:k]\<close>; a negative \<open>k\<close> counts from the end.\<close>

definition slice_to :: "'a list \<Rightarrow> int \<Rightarrow> 'a list" where
  "slice_to xs k = (if k < 0 then take (nat (int (length xs) + k)) xs else take (nat k) xs)"

definition collect_urls :: "urllib \<Rightarrow> page list \<Rightarrow> string list" where
  "collect_urls ul doc = foldl (\<lambda>urls pg. page_link_urls ul pg (page_text_urls ul pg urls)) [] doc"

definition extract_pdf_urls :: "urllib \<Rightarrow> runtime \<Rightarrow> string \<Rightarrow> int \<Rightarrow> string list outcome" where
  "extract_pdf_urls ul rt pdf_bytes max_urls =
     (case fitz_open rt pdf_bytes of
        Raises e \<Rightarrow> Raises e
      | Returns doc \<Rightarrow>
          (let urls = collect_urls ul doc;
               url_list = sort_key (set_rank rt) urls;
               url_list = shuffle (randbelow rt) url_list
           in Returns (slice_to url_list max_urls)))"

section \<open>Content fetching\<close>

text \<open>
  The HTTP client. What the network answers is a parameter: \<open>handler c n url\<close> is the
  outcome of the \<open>n\<close>-th request of the client, made for \<open>url\<close>. The client records
  the requests it has sent.
\<close>

record response =
  status_code :: int
  content_type :: "string option"
  resp_text :: string

record client =
  handler :: "nat \<Rightarrow> string \<Rightarrow> response outcome"
  requests :: "string list"

definition client_get :: "client \<Rightarrow> string \<Rightarrow> response outcome \<times> client" where
  "client_get c url = (handler c (length (requests c)) url, c\<lparr>requests := requests c @ [url]\<rparr>)"

text \<open>\<^verbatim>\<open>ContentScraper.fetch_html\<close>: the pair \<^verbatim>\<open>(html, err)\<close>, or an exception passed on.\<close>

definition fetch_html ::
  "config \<Rightarrow> client \<Rightarrow> string \<Rightarrow> (string option \<times> string option) outcome \<times> client" where
  "fetch_html cfg c url =
     (case client_get c url of
        (Raises e, c') \<Rightarrow>
          (if exn_cls e = TimeoutException then
             Returns (None, Some (''timeout after '' @ float_str cfg (REQUEST_TIMEOUT_S cfg) @ ''s''))
           else if exn_cls e = InvalidURL then
             Returns (None, Some ''invalid URL'')
           else if exn_cls e = RequestError then
             Returns (None, Some (''request error: '' @ cls_name e @ '': '' @ message e))
           else Raises e, c')
      | (Returns resp, c') \<Rightarrow>
          (let ctype = str_lower (case content_type resp of None \<Rightarrow> [] | Some v \<Rightarrow> v) in
           if status_code resp \<ge> 400 then
             Returns (None, Some (''http '' @ str_int (status_code resp)))
           else if \<not> str_in ''text/html'' ctype \<and> \<not> str_in ''application/xhtml+xml'' ctype then
             Returns (None, Some (''unsupported content-type: '' @
                (if ctype = [] then ''unknown'' else ctype)))
           else Returns (Some (resp_text resp), None), c'))"

section \<open>Content extraction\<close>

text \<open>
  The two extraction libraries are parameters: \<open>trafilatura_extract\<close> is
  \<^verbatim>\<open>trafilatura.extract(html, include_formatting=False, favor_recall=True)\<close>,
  \<open>readability_summary\<close> is \<^verbatim>\<open>Document(html).summary(html_partial=True)\<close> and
  \<open>lxml_text_content\<close> is \<^verbatim>\<open>fromstring(s).text_content()\<close>. The flag
  \<open>HAS_READABILITY\<close> is set when the optional import succeeded.
\<close>

record extractors =
  trafilatura_extract :: "string \<Rightarrow> string option outcome"
  HAS_READABILITY :: bool
  readability_summary :: "string \<Rightarrow> string outcome"
  lxml_text_content :: "string \<Rightarrow> string outcome"

text \<open>\<^verbatim>\<open>re.sub(r"\s{3,}", "\n\n", txt.strip())\<close>\<close>

definition clean_text :: "string \<Rightarrow> string" where
  "clean_text txt = collapse_ws (str_strip txt)"

text \<open>
  The two \<^verbatim>\<open>try\<close> blocks of \<^verbatim>\<open>extract_main_text\<close>. \<open>Some r\<close>: the block
  returns \<open>r\<close>; \<open>None\<close>: the block is left without a return, by a falsy text or
  by a swallowed exception.
\<close>

definition primary_block :: "extractors \<Rightarrow> string \<Rightarrow> string option" where
  "primary_block lib html =
     (case trafilatura_extract lib html of
        Raises e \<Rightarrow> None
      | Returns txt \<Rightarrow> (if truthy txt then Some (clean_text (the txt)) else None))"

definition secondary_block :: "extractors \<Rightarrow> string \<Rightarrow> string option" where
  "secondary_block lib html =
     (case readability_summary lib html of
        Raises e \<Rightarrow> None
      | Returns summary \<Rightarrow>
          (case lxml_text_content lib summary of
             Raises e \<Rightarrow> None
           | Returns txt \<Rightarrow> (if txt \<noteq> [] then Some (clean_text txt) else None)))"

definition extract_main_text :: "extractors \<Rightarrow> string \<Rightarrow> string option" where
  "extract_main_text lib html =
     (case primary_block lib html of
        Some r \<Rightarrow> Some r
      | None \<Rightarrow>
          (if HAS_READABILITY lib then
             (case secondary_block lib html of Some r \<Rightarrow> Some r | None \<Rightarrow> None)
           else None))"

section \<open>The scrape orchestrator\<close>

text \<open>
  The body of \<^verbatim>\<open>worker(url)\<close> inside \<^verbatim>\<open>async with self.sem\<close>: what a task computes
  once it holds a slot. The startup delay, the semaphore and cancellation belong to the
  runs of the next section.
\<close>

definition worker ::
  "config \<Rightarrow> extractors \<Rightarrow> client \<Rightarrow> string \<Rightarrow> ScrapeItem outcome \<times> client" where
  "worker cfg lib c url =
     (case fetch_html cfg c url of
        (Raises e, c') \<Rightarrow> (Raises e, c')
      | (Returns (html, err), c') \<Rightarrow>
          (if truthy err then ScrapeItem_new url Error None err
           else
             (let txt = extract_main_text lib (case html of None \<Rightarrow> [] | Some h \<Rightarrow> h) in
              if \<not> truthy txt
              then ScrapeItem_new url Error None (Some ''no main content extracted'')
              else ScrapeItem_new url Success txt None), c'))"

text \<open>
  The run in which every task obtains its slot and none is cancelled, the tasks
  finishing one after the other in the order of the list: \<open>gather\<close> is what
  \<^verbatim>\<open>asyncio.gather(*tasks, return_exceptions=True)\<close> returns then, one outcome per task,
  in the order of the tasks, and \<open>scrape_urls\<close> below is the value of the call. Every
  other run, with its schedule, the semaphore and cancelled tasks, is in the next
  section.
\<close>

fun gather :: "config \<Rightarrow> extractors \<Rightarrow> client \<Rightarrow> string list \<Rightarrow> ScrapeItem outcome list \<times> client" where
  "gather cfg lib c [] = ([], c)"
| "gather cfg lib c (u # us) =
     (case worker cfg lib c u of
        (r, c') \<Rightarrow> (case gather cfg lib c' us of (rs, c'') \<Rightarrow> (r # rs, c'')))"

text \<open>
  The loop over \<^verbatim>\<open>zip(results, urls)\<close> that builds \<^verbatim>\<open>items\<close>. Constructing the
  item for a failed task can itself raise; nothing catches that.
\<close>

fun collect_items :: "(ScrapeItem outcome \<times> string) list \<Rightarrow> ScrapeItem list \<Rightarrow> ScrapeItem list outcome" where
  "collect_items [] items = Returns items"
| "collect_items ((Raises e, url) # rest) items =
     (case ScrapeItem_new url Error None
             (Some (''internal error: '' @ cls_name e @ '': '' @ message e)) of
        Raises e' \<Rightarrow> Raises e'
      | Returns it \<Rightarrow> collect_items rest (items @ [it]))"
| "collect_items ((Returns it, url) # rest) items = collect_items rest (items @ [it])"

definition scrape_urls :: "config \<Rightarrow> extractors \<Rightarrow> client \<Rightarrow> string list \<Rightarrow> ScrapeItem list outcome" where
  "scrape_urls cfg lib c urls =
     (case gather cfg lib c urls of (results, c') \<Rightarrow> collect_items (zip results urls) [])"

section \<open>Runs of the orchestrator on the event loop\<close>

text \<open>
  A run of \<^verbatim>\<open>scrape_urls\<close> in full: \<^verbatim>\<open>gather\<close> creates one task per URL, and the
  event loop moves the tasks through the suspension points of \<^verbatim>\<open>worker\<close> in an order
  of its choice. A schedule is the list of the moves made:
  \<^item> \<open>Begin i\<close>: task \<open>i\<close> starts and reaches \<^verbatim>\<open>await asyncio.sleep\<close>;
  \<^item> \<open>Resume i\<close>: the delay is over, the task reaches \<^verbatim>\<open>async with self.sem\<close>;
  \<^item> \<open>Obtain i\<close>: the task acquires the semaphore, which needs a free slot;
  \<^item> \<open>Complete i\<close>: the request of the task is answered; the rest of the body runs
    without suspension and the block is left, by a return or by an exception, which
    frees the slot;
  \<^item> \<open>Cancel i\<close>: task \<open>i\<close> is cancelled where it is suspended; inside the block this
    frees its slot.

  An entry of the list that \<^verbatim>\<open>gather(*tasks, return_exceptions=True)\<close> returns is the
  record the task returned, the exception it raised, or, for a cancelled task, an
  instance of \<^verbatim>\<open>asyncio.CancelledError\<close>, which is not an \<^verbatim>\<open>Exception\<close>.
\<close>

datatype gathered = Item ScrapeItem | Failure pyexn | CancelledError

datatype phase = Created | Sleeping | AtSemaphore | InBlock | Finished gathered

datatype move = Begin nat | Resume nat | Obtain nat | Complete nat | Cancel nat

record run_state =
  free_slots :: nat
  phases :: "phase list"
  http :: client

definition in_phase :: "run_state \<Rightarrow> nat \<Rightarrow> phase \<Rightarrow> bool" where
  "in_phase s i p = (i < length (phases s) \<and> phases s ! i = p)"

definition set_phase :: "run_state \<Rightarrow> nat \<Rightarrow> phase \<Rightarrow> run_state" where
  "set_phase s i p = s\<lparr>phases := (phases s)[i := p]\<rparr>"

definition task_entry :: "ScrapeItem outcome \<Rightarrow> gathered" where
  "task_entry r = (case r of Returns it \<Rightarrow> Item it | Raises e \<Rightarrow> Failure e)"

text \<open>
  One move. The body of the task inside the block is \<open>worker\<close>; the request is
  recorded by the client when its answer arrives.
\<close>

fun advance :: "config \<Rightarrow> extractors \<Rightarrow> string list \<Rightarrow> run_state \<Rightarrow> move \<Rightarrow> run_state option" where
  "advance cfg lib urls s (Begin i) =
     (if in_phase s i Created then Some (set_phase s i Sleeping) else None)"
| "advance cfg lib urls s (Resume i) =
     (if in_phase s i Sleeping then Some (set_phase s i AtSemaphore) else None)"
| "advance cfg lib urls s (Obtain i) =
     (if in_phase s i AtSemaphore \<and> free_slots s > 0
      then Some ((set_phase s i InBlock)\<lparr>free_slots := free_slots s - 1\<rparr>) else None)"
| "advance cfg lib urls s (Complete i) =
     (if in_phase s i InBlock
      then (case worker cfg lib (http s) (urls ! i) of
              (r, c') \<Rightarrow> Some ((set_phase s i (Finished (task_entry r)))
                               \<lparr>free_slots := free_slots s + 1, http := c'\<rparr>))
      else None)"
| "advance cfg lib urls s (Cancel i) =
     (if i < length (phases s) then
        (case phases s ! i of
           Finished r \<Rightarrow> None
         | InBlock \<Rightarrow> Some ((set_phase s i (Finished CancelledError))\<lparr>free_slots := free_slots s + 1\<rparr>)
         | Created \<Rightarrow> Some (set_phase s i (Finished CancelledError))
         | Sleeping \<Rightarrow> Some (set_phase s i (Finished CancelledError))
         | AtSemaphore \<Rightarrow> Some (set_phase s i (Finished CancelledError)))
      else None)"

text \<open>A schedule from a state; \<open>None\<close> when a move of the list is not possible.\<close>

fun exec :: "config \<Rightarrow> extractors \<Rightarrow> string list \<Rightarrow> run_state \<Rightarrow> move list \<Rightarrow> run_state option" where
  "exec cfg lib urls s [] = Some s"
| "exec cfg lib urls s (m # ms) =
     (case advance cfg lib urls s m of None \<Rightarrow> None | Some s' \<Rightarrow> exec cfg lib urls s' ms)"

text \<open>The state when \<^verbatim>\<open>gather\<close> has created the tasks, for a semaphore of \<open>n\<close> slots.\<close>

definition created :: "nat \<Rightarrow> client \<Rightarrow> string list \<Rightarrow> run_state" where
  "created n c urls = \<lparr>free_slots = n, phases = replicate (length urls) Created, http = c\<rparr>"

text \<open>
  \<^verbatim>\<open>await asyncio.gather(...)\<close> is over when every task is: its value is the list of
  the entries, in the order of the tasks.
\<close>

fun entry_of :: "phase \<Rightarrow> gathered option" where
  "entry_of (Finished r) = Some r"
| "entry_of p = None"

definition gather_results :: "run_state \<Rightarrow> gathered list option" where
  "gather_results s =
     (if list_all (\<lambda>p. entry_of p \<noteq> None) (phases s) then Some (map (\<lambda>p. the (entry_of p)) (phases s))
      else None)"

text \<open>
  The loop over \<^verbatim>\<open>zip(results, urls)\<close>: an entry that is an \<^verbatim>\<open>Exception\<close> is replaced
  by an error record, whose construction can raise; every other entry, a record or a
  \<^verbatim>\<open>CancelledError\<close>, is appended as it is.
\<close>

fun build_items :: "(gathered \<times> string) list \<Rightarrow> gathered list \<Rightarrow> gathered list outcome" where
  "build_items [] items = Returns items"
| "build_items ((Failure e, url) # rest) items =
     (case ScrapeItem_new url Error None
             (Some (''internal error: '' @ cls_name e @ '': '' @ message e)) of
        Raises e' \<Rightarrow> Raises e'
      | Returns it \<Rightarrow> build_items rest (items @ [Item it]))"
| "build_items ((Item it, url) # rest) items = build_items rest (items @ [Item it])"
| "build_items ((CancelledError, url) # rest) items = build_items rest (items @ [CancelledError])"

text \<open>
  \<^verbatim>\<open>scrape_urls(urls)\<close> under a schedule, for a semaphore of \<open>n\<close> slots: \<open>None\<close> when
  the call has not returned or raised, because the schedule is not one of the program
  or because \<^verbatim>\<open>gather\<close> still waits for a task.
\<close>

definition scrape_urls_run ::
  "config \<Rightarrow> extractors \<Rightarrow> client \<Rightarrow> nat \<Rightarrow> move list \<Rightarrow> string list \<Rightarrow> gathered list outcome option" where
  "scrape_urls_run cfg lib c n sched urls =
     (case exec cfg lib urls (created n c urls) sched of
        None \<Rightarrow> None
      | Some s \<Rightarrow>
          (case gather_results s of
             None \<Rightarrow> None
           | Some results \<Rightarrow> Some (build_items (zip results urls) [])))"

text \<open>
  A task can go on by itself: some move other than a cancellation is possible. A
  schedule without cancellation. The schedule that takes the tasks one after the other,
  in the order of the list.
\<close>

definition can_advance :: "run_state \<Rightarrow> bool" where
  "can_advance s =
     list_ex (\<lambda>p. case p of Created \<Rightarrow> True | Sleeping \<Rightarrow> True | AtSemaphore \<Rightarrow> free_slots s > 0
                | InBlock \<Rightarrow> True | Finished r \<Rightarrow> False) (phases s)"

definition no_cancel :: "move list \<Rightarrow> bool" where
  "no_cancel sched = list_all (\<lambda>m. case m of Cancel i \<Rightarrow> False | _ \<Rightarrow> True) sched"

definition in_order :: "nat \<Rightarrow> move list" where
  "in_order n = concat (map (\<lambda>i. [Begin i, Resume i, Obtain i, Complete i]) [0..<n])"

text \<open>An entry at a position belongs to the URL at that position.\<close>

definition entry_for :: "gathered \<Rightarrow> string \<Rightarrow> bool" where
  "entry_for r u = (case r of Item it \<Rightarrow> source_url it = u | Failure e \<Rightarrow> True | CancelledError \<Rightarrow> True)"

text \<open>
  The tasks inside the block. The entries already in place belong to the URLs at their
  positions. No task has been cancelled.
\<close>

definition in_block :: "run_state \<Rightarrow> nat" where
  "in_block s = length (filter (\<lambda>p. p = InBlock) (phases s))"

definition placed :: "string list \<Rightarrow> run_state \<Rightarrow> bool" where
  "placed urls s = (\<forall>i < length (phases s). \<forall>r. phases s ! i = Finished r \<longrightarrow> entry_for r (urls ! i))"

definition uncancelled :: "run_state \<Rightarrow> bool" where
  "uncancelled s = (Finished CancelledError \<notin> set (phases s))"

text \<open>
  The moves a task still has before it, and their number over all the tasks.
\<close>

fun remaining :: "phase \<Rightarrow> nat" where
  "remaining Created = 4"
| "remaining Sleeping = 3"
| "remaining AtSemaphore = 2"
| "remaining InBlock = 1"
| "remaining (Finished r) = 0"

definition moves_left :: "run_state \<Rightarrow> nat" where
  "moves_left s = sum_list (map remaining (phases s))"

section \<open>The upload endpoint\<close>

datatype http_result =
  HTTPException int string | JSONResponse "ScrapeItem list" | Unhandled pyexn

text \<open>
  \<^verbatim>\<open>scrape_resume_links\<close>. The size in MB is the exact quotient (true division by
  \<open>1024 * 1024\<close> is exact for every length below \<open>2 ^ 53\<close>). Each run opens a client
  of its own; \<open>net\<close> is what the network answers. An exception that leaves
  \<^verbatim>\<open>scrape_urls\<close> is not caught here: the result \<open>Unhandled\<close>.
\<close>

definition scrape_resume_links ::
  "config \<Rightarrow> urllib \<Rightarrow> runtime \<Rightarrow> extractors \<Rightarrow> (nat \<Rightarrow> string \<Rightarrow> response outcome) \<Rightarrow> string \<Rightarrow> http_result" where
  "scrape_resume_links cfg ul rt lib net content =
     (let size_mb = real (length content) / (1024 * 1024) in
      if size_mb > MAX_PDF_SIZE_MB cfg then
        HTTPException 413 (''PDF too large ('' @ fmt_2f cfg size_mb @ '' MB). Max '' @
           fmt_0f cfg (MAX_PDF_SIZE_MB cfg) @ '' MB'')
      else
        (case extract_pdf_urls ul rt content (MAX_URLS cfg) of
           Raises e \<Rightarrow>
             (if exn_cls e = FileDataError then HTTPException 400 ''Invalid or corrupted PDF''
              else HTTPException 400 (''PDF parse error: '' @ message e))
         | Returns urls \<Rightarrow>
             (if urls = [] then HTTPException 422 ''No hyperlinks found in the PDF''
              else
                (case scrape_urls cfg lib \<lparr>handler = net, requests = []\<rparr> urls of
                   Raises e \<Rightarrow> Unhandled e
                 | Returns items \<Rightarrow> JSONResponse items))))"

section \<open>Tasks and the semaphore\<close>

text \<open>
  The tasks of \<^verbatim>\<open>scrape_urls\<close> under the event loop, as a transition system. A task is
  at one of the suspension points of \<^verbatim>\<open>worker\<close>: not yet started, in
  \<^verbatim>\<open>asyncio.sleep\<close>, at \<^verbatim>\<open>async with self.sem\<close> waiting for a slot, in
  \<^verbatim>\<open>fetch_html\<close>, in \<^verbatim>\<open>extract_main_text\<close>, or finished. The semaphore is its
  counter: acquiring needs a positive counter and decrements it, leaving the
  \<^verbatim>\<open>async with\<close> block (by a return or by an exception) increments it. Which task
  moves next is the choice of the event loop: an event names the task.
\<close>

datatype task_state = Pending | Delayed | Waiting | Fetching | Extracting | Done

datatype event =
  Dispatch nat | Wake nat | Acquire nat | Fetched nat bool | Extracted nat

record loop_state =
  sem_value :: nat
  tasks :: "task_state list"

text \<open>
  \<^verbatim>\<open>ScraperService.__init__\<close>: \<^verbatim>\<open>asyncio.Semaphore(Config.CONCURRENCY)\<close> raises
  \<^verbatim>\<open>ValueError\<close> for a negative value.
\<close>

definition ScraperService_init :: "config \<Rightarrow> nat outcome" where
  "ScraperService_init cfg =
     (if CONCURRENCY cfg < 0
      then Raises (PyExn OtherError ''ValueError'' ''Semaphore initial value must be >= 0'')
      else Returns (nat (CONCURRENCY cfg)))"

definition set_task :: "loop_state \<Rightarrow> nat \<Rightarrow> task_state \<Rightarrow> loop_state" where
  "set_task s i t = s\<lparr>tasks := (tasks s)[i := t]\<rparr>"

definition at_state :: "loop_state \<Rightarrow> nat \<Rightarrow> task_state \<Rightarrow> bool" where
  "at_state s i t = (i < length (tasks s) \<and> tasks s ! i = t)"

text \<open>
  One move of task \<open>i\<close>. \<open>Fetched i ok\<close>: \<^verbatim>\<open>fetch_html\<close> is over; with \<open>ok\<close> the task
  goes on to extract, otherwise it returns its error record, or raises, and leaves the
  block.
\<close>

fun step :: "loop_state \<Rightarrow> event \<Rightarrow> loop_state option" where
  "step s (Dispatch i) = (if at_state s i Pending then Some (set_task s i Delayed) else None)"
| "step s (Wake i) = (if at_state s i Delayed then Some (set_task s i Waiting) else None)"
| "step s (Acquire i) =
     (if at_state s i Waiting \<and> sem_value s > 0
      then Some ((set_task s i Fetching)\<lparr>sem_value := sem_value s - 1\<rparr>) else None)"
| "step s (Fetched i ok) =
     (if at_state s i Fetching
      then Some (if ok then set_task s i Extracting
                 else (set_task s i Done)\<lparr>sem_value := sem_value s + 1\<rparr>)
      else None)"
| "step s (Extracted i) =
     (if at_state s i Extracting
      then Some ((set_task s i Done)\<lparr>sem_value := sem_value s + 1\<rparr>) else None)"

fun run :: "loop_state \<Rightarrow> event list \<Rightarrow> loop_state option" where
  "run s [] = Some s"
| "run s (e # es) = (case step s e of None \<Rightarrow> None | Some s' \<Rightarrow> run s' es)"

text \<open>The state when \<open>n\<close> tasks have been created for a semaphore of \<open>c\<close> slots.\<close>

definition start :: "nat \<Rightarrow> nat \<Rightarrow> loop_state" where
  "start c n = \<lparr>sem_value = c, tasks = replicate n Pending\<rparr>"

text \<open>The tasks inside the block (fetching or extracting), and those blocked at it.\<close>

definition in_flight :: "loop_state \<Rightarrow> nat" where
  "in_flight s = length (filter (\<lambda>t. t = Fetching \<or> t = Extracting) (tasks s))"

definition blocked :: "loop_state \<Rightarrow> nat" where
  "blocked s = length (filter (\<lambda>t. t = Waiting) (tasks s))"

section \<open>The failure taxonomy of the specification\<close>

text \<open>
  The specification lists the failures of the content fetcher: timeout, invalid URL,
  request error, a response status of 400 or more, and a content type that indicates
  neither HTML nor XHTML. \<open>spec_failure\<close> classifies what the GET request produced
  by that list; \<open>message_prefix\<close> is the fixed beginning of the message of each kind.
\<close>

datatype failure_kind = Timeout | InvalidUrlFailure | RequestFailure | HttpStatus | UnsupportedContentType

definition html_type :: "string \<Rightarrow> bool" where
  "html_type ctype = (str_in ''text/html'' ctype \<or> str_in ''application/xhtml+xml'' ctype)"

definition header_value :: "response \<Rightarrow> string" where
  "header_value resp = str_lower (case content_type resp of None \<Rightarrow> [] | Some v \<Rightarrow> v)"

definition spec_failure :: "response outcome \<Rightarrow> failure_kind option" where
  "spec_failure got =
     (case got of
        Raises e \<Rightarrow>
          (if exn_cls e = TimeoutException then Some Timeout
           else if exn_cls e = InvalidURL then Some InvalidUrlFailure
           else if exn_cls e = RequestError then Some RequestFailure
           else None)
      | Returns resp \<Rightarrow>
          (if status_code resp \<ge> 400 then Some HttpStatus
           else if \<not> html_type (header_value resp) then Some UnsupportedContentType
           else None))"

fun message_prefix :: "failure_kind \<Rightarrow> string" where
  "message_prefix Timeout = ''timeout after ''"
| "message_prefix InvalidUrlFailure = ''invalid URL''"
| "message_prefix RequestFailure = ''request error: ''"
| "message_prefix HttpStatus = ''http ''"
| "message_prefix UnsupportedContentType = ''unsupported content-type: ''"

section \<open>The invariant of a result record\<close>

text \<open>
  A field of a \<^verbatim>\<open>ScrapeItem\<close> is populated when it is not \<^verbatim>\<open>None\<close>. The invariant
  of the data model: exactly one of \<^verbatim>\<open>scraped_text\<close> and \<^verbatim>\<open>error_message\<close> is
  populated, and the status says which.
\<close>

definition populated :: "string option \<Rightarrow> bool" where
  "populated x = (x \<noteq> None)"

definition item_invariant :: "ScrapeItem \<Rightarrow> bool" where
  "item_invariant it =
     ((populated (scraped_text it) \<noteq> populated (error_message it)) \<and>
      (status it = Success) = populated (scraped_text it) \<and>
      (status it = Error) = populated (error_message it))"

text \<open>The primary strategy fails: it raises or yields a falsy text. Likewise the secondary.\<close>

definition primary_fails :: "extractors \<Rightarrow> string \<Rightarrow> bool" where
  "primary_fails lib html =
     (case trafilatura_extract lib html of Raises e \<Rightarrow> True | Returns txt \<Rightarrow> \<not> truthy txt)"

definition secondary_fails :: "extractors \<Rightarrow> string \<Rightarrow> bool" where
  "secondary_fails lib html =
     (case readability_summary lib html of
        Raises e \<Rightarrow> True
      | Returns summary \<Rightarrow>
          (case lxml_text_content lib summary of Raises e \<Rightarrow> True | Returns txt \<Rightarrow> txt = []))"

section \<open>The URLs found in a document\<close>

text \<open>
  The raw candidates of a page are the matches of the pattern in its text and the
  non-empty targets of its link annotations; a part of the page that cannot be read
  contributes none. The URLs found in a document are the normalized candidates of its
  pages.
\<close>

definition page_candidates :: "page \<Rightarrow> string list" where
  "page_candidates pg =
     (case get_text pg of
        Raises e \<Rightarrow> []
      | Returns t \<Rightarrow> findall (case t of None \<Rightarrow> [] | Some s \<Rightarrow> s)) @
     (case get_links pg of
        Raises e \<Rightarrow> []
      | Returns ls \<Rightarrow> map the (filter truthy (case ls of None \<Rightarrow> [] | Some l \<Rightarrow> l)))"

definition normalized :: "urllib \<Rightarrow> string list \<Rightarrow> string list" where
  "normalized ul raws = map the (filter truthy (map (normalize_url ul) raws))"

definition found_urls :: "urllib \<Rightarrow> page list \<Rightarrow> string list" where
  "found_urls ul doc = normalized ul (concat (map page_candidates doc))"

section \<open>The prepared form of a raw string\<close>

text \<open>
  What the specification calls the result of trimming whitespace, stripping the
  trailing punctuation and prepending \<^verbatim>\<open>http://\<close> to a string that begins with
  \<^verbatim>\<open>www.\<close>: the string that is handed to the parser.
\<close>

definition prepared :: "string \<Rightarrow> string" where
  "prepared raw =
     (if startswith (str_lower (strip_trailing_punct (str_strip raw))) ''www.''
      then ''http://'' @ strip_trailing_punct (str_strip raw)
      else strip_trailing_punct (str_strip raw))"

text \<open>A string ends in a character that normalization strips: whitespace or trailing punctuation.\<close>

definition strippable_end :: "string \<Rightarrow> bool" where
  "strippable_end s = (s \<noteq> [] \<and> (isspace (last s) \<or> last s \<in> set TRAILING_PUNCT))"

section \<open>Concrete inputs\<close>

text \<open>The configuration with the default values of the program.\<close>

definition default_config :: config where
  "default_config = \<lparr>REQUEST_TIMEOUT_S = 12, CONCURRENCY = 6, MAX_URLS = 40, MAX_PDF_SIZE_MB = 10,
     float_str = (\<lambda>r. ''12.0''), fmt_2f = (\<lambda>r. ''10.00''), fmt_0f = (\<lambda>r. ''10'')\<rparr>"

text \<open>Three networks: every page is missing, is JSON, is a small HTML page.\<close>

definition net_404 :: "nat \<Rightarrow> string \<Rightarrow> response outcome" where
  "net_404 n url = Returns \<lparr>status_code = 404, content_type = Some ''text/html'', resp_text = ''missing''\<rparr>"

definition net_json :: "nat \<Rightarrow> string \<Rightarrow> response outcome" where
  "net_json n url = Returns \<lparr>status_code = 200, content_type = Some ''Application/JSON'', resp_text = ''{}''\<rparr>"

definition net_html :: "nat \<Rightarrow> string \<Rightarrow> response outcome" where
  "net_html n url = Returns \<lparr>status_code = 200, content_type = Some ''text/html; charset=utf-8'',
     resp_text = ''<p>hello</p>''\<rparr>"

definition new_client :: "(nat \<Rightarrow> string \<Rightarrow> response outcome) \<Rightarrow> client" where
  "new_client net = \<lparr>handler = net, requests = []\<rparr>"

text \<open>
  Three sets of extraction libraries: the primary strategy finds text; only the
  secondary does; none does.
\<close>

definition lib_primary :: extractors where
  "lib_primary = \<lparr>trafilatura_extract = (\<lambda>html. Returns (Some ''hello'')), HAS_READABILITY = False,
     readability_summary = (\<lambda>html. Raises (PyExn OtherError ''NameError'' ''Document'')),
     lxml_text_content = (\<lambda>s. Raises (PyExn OtherError ''NameError'' ''fromstring''))\<rparr>"

definition lib_secondary :: extractors where
  "lib_secondary = \<lparr>trafilatura_extract = (\<lambda>html. Returns None), HAS_READABILITY = True,
     readability_summary = (\<lambda>html. Returns ''<div>hello</div>''),
     lxml_text_content = (\<lambda>s. Returns ''hello'')\<rparr>"

definition lib_none :: extractors where
  "lib_none = \<lparr>trafilatura_extract = (\<lambda>html. Raises (PyExn OtherError ''ValueError'' ''bad tree'')),
     HAS_READABILITY = True,
     readability_summary = (\<lambda>html. Returns ''<div></div>''),
     lxml_text_content = (\<lambda>s. Returns [])\<rparr>"

text \<open>A URL of 2001 characters, and a network on which every request fails unexpectedly.\<close>

definition long_url :: string where
  "long_url = ''http://x.com/'' @ replicate 1988 CHR ''a''"

definition net_broken :: "nat \<Rightarrow> string \<Rightarrow> response outcome" where
  "net_broken n url = Raises (PyExn OtherError ''RuntimeError'' ''boom'')"

text \<open>
  A URL library whose two external checks accept everything, and a document of one
  page whose only link annotation points to the long URL.
\<close>

definition plain_urllib :: urllib where
  "plain_urllib = \<lparr>check_bracketed_host = (\<lambda>h. True), nfkc = (\<lambda>s. s)\<rparr>"

definition rt_long_link :: runtime where
  "rt_long_link = \<lparr>fitz_open = (\<lambda>b. Returns [\<lparr>get_text = Returns (Some []),
       get_links = Returns (Some [Some long_url])\<rparr>]),
     set_rank = (\<lambda>s. 0), randbelow = (\<lambda>i. 0)\<rparr>"

text \<open>
  What the tasks hand to the result loop: a task that returned an item returned it for
  its own URL, and the item satisfies the invariant.
\<close>

definition task_ok :: "ScrapeItem outcome \<Rightarrow> string \<Rightarrow> bool" where
  "task_ok r u = (\<forall>it. r = Returns it \<longrightarrow> source_url it = u \<and> item_invariant it)"

text \<open>A parser for which no document can be opened.\<close>

definition rt_corrupt :: runtime where
  "rt_corrupt = \<lparr>fitz_open = (\<lambda>b. Raises (PyExn FileDataError ''FileDataError'' ''cannot open'')),
     set_rank = (\<lambda>s. 0), randbelow = (\<lambda>i. 0)\<rparr>"

text \<open>
  A document of one page: the text mentions one URL twice, with different trailing
  punctuation, and a second URL; the link annotation repeats the first.
\<close>

definition two_url_page :: page where
  "two_url_page = \<lparr>get_text = Returns (Some ''see http://a.com/x, (http://a.com/x). www.b.org''),
     get_links = Returns (Some [Some ''http://a.com/x'', None])\<rparr>"

definition rt_two_urls :: runtime where
  "rt_two_urls = \<lparr>fitz_open = (\<lambda>b. Returns [two_url_page]), set_rank = length, randbelow = (\<lambda>i. 0)\<rparr>"

text \<open>A configuration with two slots.\<close>

definition two_slot_config :: config where
  "two_slot_config = default_config\<lparr>CONCURRENCY := 2\<rparr>"

text \<open>Configurations with one slot and with none.\<close>

definition one_slot_config :: config where
  "one_slot_config = default_config\<lparr>CONCURRENCY := 1\<rparr>"

definition zero_slot_config :: config where
  "zero_slot_config = default_config\<lparr>CONCURRENCY := 0\<rparr>"

section \<open>Verification: the content fetcher\<close>

lemma fetch_html_requests:
  "requests (snd (fetch_html cfg c url)) = requests c @ [url]"
  by (simp add: fetch_html_def client_get_def Let_def split: outcome.splits)

lemma fetch_html_failure:
  assumes "spec_failure (handler c (length (requests c)) url) = Some k"
  shows "\<exists>m. fst (fetch_html cfg c url) = Returns (None, Some m) \<and> startswith m (message_prefix k)"
  using assms
  by (auto simp: fetch_html_def client_get_def spec_failure_def html_type_def header_value_def
        startswith_def Let_def split: outcome.splits if_splits)

lemma fetch_html_http_status:
  assumes "handler c (length (requests c)) url = Returns resp" "status_code resp \<ge> 400"
  shows "fst (fetch_html cfg c url) = Returns (None, Some (''http '' @ str_int (status_code resp)))"
  using assms by (simp add: fetch_html_def client_get_def Let_def)

lemma fetch_html_content_type:
  assumes "handler c (length (requests c)) url = Returns resp" "status_code resp < 400"
    "\<not> html_type (header_value resp)"
  shows "fst (fetch_html cfg c url) = Returns (None, Some (''unsupported content-type: '' @
           (if header_value resp = [] then ''unknown'' else header_value resp)))"
  using assms by (simp add: fetch_html_def client_get_def html_type_def header_value_def Let_def)

lemma fetch_html_success:
  assumes "handler c (length (requests c)) url = Returns resp" "spec_failure (Returns resp) = None"
  shows "fst (fetch_html cfg c url) = Returns (Some (resp_text resp), None)"
  using assms
  by (auto simp: fetch_html_def client_get_def spec_failure_def html_type_def header_value_def Let_def
        split: if_splits)

lemma fetch_html_returns_err:
  assumes "fst (fetch_html cfg c url) = Returns (h, Some m)"
  shows "h = None \<and> m \<noteq> [] \<and> spec_failure (handler c (length (requests c)) url) \<noteq> None"
  using assms
  by (auto simp: fetch_html_def client_get_def spec_failure_def html_type_def header_value_def Let_def
        split: outcome.splits if_splits)

lemma fetch_html_returns_ok:
  assumes "fst (fetch_html cfg c url) = Returns (h, None)"
  shows "\<exists>resp. handler c (length (requests c)) url = Returns resp \<and> spec_failure (Returns resp) = None
           \<and> h = Some (resp_text resp)"
  using assms
  by (auto simp: fetch_html_def client_get_def spec_failure_def html_type_def header_value_def Let_def
        split: outcome.splits if_splits)

lemma message_prefix_distinct:
  "k \<noteq> k' \<Longrightarrow> \<not> (startswith m (message_prefix k) \<and> startswith m (message_prefix k'))"
  by (cases k; cases k'; cases m) (auto simp: startswith_def)

lemma fetch_html_passes_on:
  "fst (fetch_html cfg c url) = Raises e \<longleftrightarrow>
   handler c (length (requests c)) url = Raises e \<and> spec_failure (Raises e) = None"
  by (auto simp: fetch_html_def client_get_def spec_failure_def Let_def
        split: outcome.splits if_splits)

text \<open>
  Claim C5 (amended). \<^verbatim>\<open>fetch_html\<close> sends one request and never a second one. It
  returns a failure message and no markup exactly when the request falls under a kind
  of the taxonomy: a timeout, an invalid URL, a request error, a response with status
  400 or more (message \<^verbatim>\<open>http <status>\<close>), or a response whose content type names
  neither HTML nor XHTML (message \<^verbatim>\<open>unsupported content-type: \<close> followed by the
  header value, or \<^verbatim>\<open>unknown\<close> for an empty one). Messages of different kinds are
  different. Every other response is returned as its body, with no failure. When the
  request raises an exception of none of the three handled classes, \<^verbatim>\<open>fetch_html\<close>
  returns nothing: it raises that exception, and in no other case does it raise.
\<close>

theorem fetch_html_taxonomy:
  "requests (snd (fetch_html cfg c url)) = requests c @ [url] \<and>
   (spec_failure (handler c (length (requests c)) url) = Some k \<longrightarrow>
      (\<exists>m. fst (fetch_html cfg c url) = Returns (None, Some m) \<and> startswith m (message_prefix k))) \<and>
   (handler c (length (requests c)) url = Returns resp \<and> status_code resp \<ge> 400 \<longrightarrow>
      fst (fetch_html cfg c url) = Returns (None, Some (''http '' @ str_int (status_code resp)))) \<and>
   (handler c (length (requests c)) url = Returns resp \<and> status_code resp < 400 \<and>
      \<not> html_type (header_value resp) \<longrightarrow>
      fst (fetch_html cfg c url) = Returns (None, Some (''unsupported content-type: '' @
         (if header_value resp = [] then ''unknown'' else header_value resp)))) \<and>
   (handler c (length (requests c)) url = Returns resp \<and> spec_failure (Returns resp) = None \<longrightarrow>
      fst (fetch_html cfg c url) = Returns (Some (resp_text resp), None)) \<and>
   (fst (fetch_html cfg c url) = Returns (h, Some m) \<longrightarrow>
      h = None \<and> spec_failure (handler c (length (requests c)) url) \<noteq> None) \<and>
   (fst (fetch_html cfg c url) = Returns (h, None) \<longrightarrow>
      (\<exists>r. handler c (length (requests c)) url = Returns r \<and> spec_failure (Returns r) = None \<and>
           h = Some (resp_text r))) \<and>
   (k1 \<noteq> k2 \<longrightarrow> \<not> (startswith m' (message_prefix k1) \<and> startswith m' (message_prefix k2))) \<and>
   (handler c (length (requests c)) url = Raises e \<and> spec_failure (Raises e) = None \<longrightarrow>
      fst (fetch_html cfg c url) = Raises e) \<and>
   (fst (fetch_html cfg c url) = Raises e \<longrightarrow>
      handler c (length (requests c)) url = Raises e \<and> spec_failure (Raises e) = None)"
  using fetch_html_requests [of cfg c url] fetch_html_failure [of c url k cfg]
    fetch_html_http_status [of c url resp cfg] fetch_html_content_type [of c url resp cfg]
    fetch_html_success [of c url resp cfg] fetch_html_returns_err [of cfg c url h m]
    fetch_html_returns_ok [of cfg c url h] message_prefix_distinct [of k1 k2 m']
    fetch_html_passes_on [of cfg c url e]
  by blast

theorem fetch_html_taxonomy_witness:
  "fst (fetch_html default_config (new_client net_404) ''http://x.com/a'') = Returns (None, Some ''http 404'') \<and>
   fst (fetch_html default_config (new_client net_json) ''http://x.com/a'')
     = Returns (None, Some ''unsupported content-type: application/json'') \<and>
   fst (fetch_html default_config (new_client net_html) ''http://x.com/a'')
     = Returns (Some ''<p>hello</p>'', None) \<and>
   requests (snd (fetch_html default_config (new_client net_html) ''http://x.com/a'')) = [''http://x.com/a''] \<and>
   fst (fetch_html default_config (new_client net_broken) ''http://x.com/a'')
     = Raises (PyExn OtherError ''RuntimeError'' ''boom'')"
proof -
  let ?u = "''http://x.com/a''"
  let ?e = "PyExn OtherError ''RuntimeError'' ''boom''"
  let ?r1 = "\<lparr>status_code = 404, content_type = Some ''text/html'', resp_text = ''missing''\<rparr>"
  let ?r2 = "\<lparr>status_code = 200, content_type = Some ''Application/JSON'', resp_text = ''{}''\<rparr>"
  let ?r3 = "\<lparr>status_code = 200, content_type = Some ''text/html; charset=utf-8'',
          resp_text = ''<p>hello</p>''\<rparr>"
  have a: "handler (new_client net_404) (length (requests (new_client net_404))) ?u = Returns ?r1"
    by (simp add: new_client_def net_404_def)
  have b: "handler (new_client net_json) (length (requests (new_client net_json))) ?u = Returns ?r2"
    by (simp add: new_client_def net_json_def)
  have c: "handler (new_client net_html) (length (requests (new_client net_html))) ?u = Returns ?r3"
    by (simp add: new_client_def net_html_def)
  have s404: "str_int 404 = ''404''"
    by (simp add: str_int_def str_nat.simps digit_char_def)
  have lj: "header_value ?r2 = ''application/json''"
    by (simp add: header_value_def str_lower_def char_lower_def code_point_def char_of_eq_iff)
  have lh: "header_value ?r3 = ''text/html; charset=utf-8''"
    by (simp add: header_value_def str_lower_def char_lower_def code_point_def char_of_eq_iff)
  have nj: "\<not> html_type (header_value ?r2)"
    by (simp add: lj html_type_def startswith_def)
  have nh: "spec_failure (Returns ?r3) = None"
    by (simp add: spec_failure_def lh html_type_def startswith_def)
  note T1 = fetch_html_taxonomy [of default_config "new_client net_404" ?u HttpStatus ?r1]
  note T2 = fetch_html_taxonomy [of default_config "new_client net_json" ?u HttpStatus ?r2]
  note T3 = fetch_html_taxonomy [of default_config "new_client net_html" ?u HttpStatus ?r3]
  have t1: "fst (fetch_html default_config (new_client net_404) ?u) = Returns (None, Some ''http 404'')"
    using T1 [THEN conjunct2, THEN conjunct2, THEN conjunct1] a s404 by simp
  have t2: "fst (fetch_html default_config (new_client net_json) ?u)
      = Returns (None, Some ''unsupported content-type: application/json'')"
    using T2 [THEN conjunct2, THEN conjunct2, THEN conjunct2, THEN conjunct1] b nj lj by simp
  have t3: "fst (fetch_html default_config (new_client net_html) ?u) = Returns (Some ''<p>hello</p>'', None)"
    using T3 [THEN conjunct2, THEN conjunct2, THEN conjunct2, THEN conjunct2, THEN conjunct1] c nh
    by simp
  have t4: "requests (snd (fetch_html default_config (new_client net_html) ?u)) = [?u]"
    using T3 [THEN conjunct1] by (simp add: new_client_def)
  have d: "handler (new_client net_broken) (length (requests (new_client net_broken))) ?u = Raises ?e
      \<and> spec_failure (Raises ?e) = None"
    by (simp add: new_client_def net_broken_def spec_failure_def)
  note T4 = fetch_html_taxonomy [of default_config "new_client net_broken" ?u HttpStatus ?r1 None "[]"
      Timeout HttpStatus "[]" ?e]
  have t5: "fst (fetch_html default_config (new_client net_broken) ?u) = Raises ?e"
    using T4 [THEN conjunct2, THEN conjunct2, THEN conjunct2, THEN conjunct2, THEN conjunct2,
        THEN conjunct2, THEN conjunct2, THEN conjunct2, THEN conjunct1] d
    by (rule mp)
  show ?thesis using t1 t2 t3 t4 t5 by simp
qed

text \<open>
  The claim as stated, with the body returned in every case outside the five kinds,
  fails: the request raises an exception of none of the handled classes, which is no
  kind of the taxonomy, and \<^verbatim>\<open>fetch_html\<close> returns neither a message nor a body.
\<close>

theorem fetch_html_taxonomy_counterexample:
  "spec_failure (net_broken 0 ''http://x.com/a'') = None \<and>
   fst (fetch_html default_config (new_client net_broken) ''http://x.com/a'')
     = Raises (PyExn OtherError ''RuntimeError'' ''boom'')"
  by (simp add: spec_failure_def net_broken_def fetch_html_def client_get_def new_client_def)

section \<open>Verification: the orchestrator\<close>

lemma ScrapeItem_new_Returns:
  "ScrapeItem_new url st txt err = Returns it \<longleftrightarrow>
     length url \<le> 2000 \<and> it = \<lparr>source_url = url, status = st, scraped_text = txt, error_message = err\<rparr>"
  by (auto simp: ScrapeItem_new_def)

lemma worker_item:
  assumes "fst (worker cfg lib c url) = Returns it"
  shows "source_url it = url \<and> item_invariant it \<and> length url \<le> 2000
     \<and> (status it = Success \<longrightarrow> (\<exists>t. scraped_text it = Some t \<and> t \<noteq> []))"
proof (cases "fetch_html cfg c url")
  case (Pair r c')
  show ?thesis
  proof (cases r)
    case (Raises e)
    with Pair assms show ?thesis by (simp add: worker_def)
  next
    case (Returns p)
    obtain html err where p: "p = (html, err)" by (cases p)
    show ?thesis
    proof (cases "truthy err")
      case True
      then obtain m where "err = Some m" by (cases err) auto
      with True Pair Returns p assms show ?thesis
        by (auto simp: worker_def ScrapeItem_new_Returns item_invariant_def populated_def)
    next
      case False
      with Pair Returns p assms show ?thesis
        by (cases "extract_main_text lib (case html of None \<Rightarrow> [] | Some h \<Rightarrow> h)")
           (auto simp: worker_def Let_def ScrapeItem_new_Returns item_invariant_def populated_def
              split: if_splits)
    qed
  qed
qed

lemma gather_tasks:
  "gather cfg lib c urls = (rs, c') \<Longrightarrow> list_all2 task_ok rs urls"
proof (induction urls arbitrary: c rs c')
  case Nil
  then show ?case by simp
next
  case (Cons u us)
  obtain r c1 where w: "worker cfg lib c u = (r, c1)" by (cases "worker cfg lib c u")
  obtain rs' c2 where g: "gather cfg lib c1 us = (rs', c2)" by (cases "gather cfg lib c1 us")
  from Cons.prems w g have rs: "rs = r # rs'" by simp
  have "task_ok r u"
    using worker_item [of cfg lib c u] w by (simp add: task_ok_def)
  with Cons.IH [OF g] rs show ?case by simp
qed

lemma collect_items_returns:
  assumes "list_all2 task_ok rs urls" "collect_items (zip rs urls) acc = Returns items"
  shows "\<exists>new. items = acc @ new \<and> map source_url new = urls \<and> (\<forall>it \<in> set new. item_invariant it)"
  using assms
proof (induction rs urls arbitrary: acc rule: list_all2_induct)
  case Nil
  then show ?case by simp
next
  case (Cons r rs u us)
  show ?case
  proof (cases r)
    case (Raises e)
    let ?msg = "Some (''internal error: '' @ cls_name e @ '': '' @ message e)"
    from Cons.prems Raises obtain it where
      it: "ScrapeItem_new u Error None ?msg = Returns it"
      and rest: "collect_items (zip rs us) (acc @ [it]) = Returns items"
      by (auto split: outcome.splits)
    from it have "source_url it = u \<and> item_invariant it"
      by (auto simp: ScrapeItem_new_Returns item_invariant_def populated_def)
    with Cons.IH [OF rest] show ?thesis by auto
  next
    case (Returns it)
    with Cons.prems have rest: "collect_items (zip rs us) (acc @ [it]) = Returns items" by simp
    from Cons.hyps(1) Returns have "source_url it = u \<and> item_invariant it"
      by (simp add: task_ok_def)
    with Cons.IH [OF rest] show ?thesis by auto
  qed
qed

lemma collect_items_total:
  assumes "list_all2 task_ok rs urls" "\<forall>u \<in> set urls. length u \<le> 2000"
  shows "\<exists>items. collect_items (zip rs urls) acc = Returns items"
  using assms
proof (induction rs urls arbitrary: acc rule: list_all2_induct)
  case Nil
  then show ?case by simp
next
  case (Cons r rs u us)
  then show ?case
    by (cases r) (auto simp: ScrapeItem_new_def)
qed

text \<open>
  Within the bound on the URL, every task outcome is turned into the record at its own
  position, whatever the other tasks produced.
\<close>

lemma collect_items_isolated:
  assumes "length rs = length urls" "\<forall>u \<in> set urls. length u \<le> 2000"
  shows "collect_items (zip rs urls) acc = Returns (acc @ map2
           (\<lambda>r u. case r of
               Raises e \<Rightarrow> \<lparr>source_url = u, status = Error, scraped_text = None,
                  error_message = Some (''internal error: '' @ cls_name e @ '': '' @ message e)\<rparr>
             | Returns it \<Rightarrow> it) rs urls)"
  using assms
proof (induction rs urls arbitrary: acc rule: list_induct2)
  case Nil
  then show ?case by simp
next
  case (Cons r rs u us)
  then show ?case by (cases r) (simp_all add: ScrapeItem_new_def)
qed

lemma scrape_urls_returns:
  assumes "scrape_urls cfg lib c urls = Returns items"
  shows "map source_url items = urls \<and> (\<forall>it \<in> set items. item_invariant it)"
proof -
  obtain rs c' where g: "gather cfg lib c urls = (rs, c')" by (cases "gather cfg lib c urls")
  with assms have "collect_items (zip rs urls) [] = Returns items" by (simp add: scrape_urls_def)
  from collect_items_returns [OF gather_tasks [OF g] this] show ?thesis by auto
qed

lemma scrape_urls_total:
  assumes "\<forall>u \<in> set urls. length u \<le> 2000"
  shows "\<exists>items. scrape_urls cfg lib c urls = Returns items"
proof -
  obtain rs c' where g: "gather cfg lib c urls = (rs, c')" by (cases "gather cfg lib c urls")
  from collect_items_total [OF gather_tasks [OF g] assms] g show ?thesis
    by (simp add: scrape_urls_def)
qed

lemma clean_hello: "clean_text ''hello'' = ''hello''"
  by (simp add: clean_text_def str_strip_def rstrip_where_def lstrip_where_def isspace_def code_point_def)

lemma long_url_length: "length long_url = 2001"
  by (simp add: long_url_def)

lemma fetch_net_html:
  "handler c = net_html \<Longrightarrow>
   fetch_html default_config c url = (Returns (Some ''<p>hello</p>'', None), c\<lparr>requests := requests c @ [url]\<rparr>)"
  by (simp add: fetch_html_def client_get_def net_html_def str_lower_def
        char_lower_def code_point_def char_of_eq_iff startswith_def)

lemma fetch_net_broken:
  "fst (fetch_html default_config (new_client net_broken) url)
     = Raises (PyExn OtherError ''RuntimeError'' ''boom'')"
  by (simp add: fetch_html_def client_get_def new_client_def net_broken_def)

lemma extract_lib_primary: "extract_main_text lib_primary html = Some ''hello''"
  by (simp add: extract_main_text_def primary_block_def lib_primary_def clean_hello)

lemma extract_lib_none: "extract_main_text lib_none html = None"
  by (simp add: extract_main_text_def primary_block_def secondary_block_def lib_none_def)

lemma worker_net_html:
  "handler c = net_html \<Longrightarrow> length url \<le> 2000 \<Longrightarrow>
   worker default_config lib_primary c url
     = (Returns \<lparr>source_url = url, status = Success, scraped_text = Some ''hello'', error_message = None\<rparr>,
        c\<lparr>requests := requests c @ [url]\<rparr>)"
  by (simp add: worker_def fetch_net_html extract_lib_primary ScrapeItem_new_def)

lemma scrape_short_broken:
  "scrape_urls default_config lib_primary (new_client net_broken) [''http://x.com/a'']
     = Returns [\<lparr>source_url = ''http://x.com/a'', status = Error, scraped_text = None,
          error_message = Some ''internal error: RuntimeError: boom''\<rparr>]"
  using fetch_net_broken [of "''http://x.com/a''"]
  by (cases "fetch_html default_config (new_client net_broken) ''http://x.com/a''")
     (simp add: scrape_urls_def worker_def ScrapeItem_new_def)

lemma normalize_long_url: "normalize_url plain_urllib long_url = Some long_url"
  by (simp add: normalize_url_def long_url_def str_strip_def rstrip_where_def lstrip_where_def
      isspace_def code_point_def strip_trailing_punct_def TRAILING_PUNCT_def startswith_def
      str_lower_def char_lower_def urlsplit_def WHATWG_C0_CONTROL_OR_SPACE_def
      UNSAFE_URL_BYTES_TO_REMOVE_def split_scheme_def str_find_def ascii_alpha_def scheme_chars_def
      ascii_digit_def splitnetloc_def check_brackets_def split_first_def checknetloc_def isascii_def
      urlunsplit_def Let_def char_of_eq_iff)

lemma extract_long_link:
  "extract_pdf_urls plain_urllib rt_long_link content 40 = Returns [long_url]"
proof -
  have "long_url \<noteq> []" by (simp add: long_url_def)
  then show ?thesis
  by (simp add: extract_pdf_urls_def rt_long_link_def collect_urls_def page_text_urls_def
      page_link_urls_def add_normalized_def normalize_long_url set_add_def shuffle_def slice_to_def
      Let_def)
qed

text \<open>
  Claim C2 (defect of the program). A task that fails for a URL of more than 2000
  characters is not turned into an error record: building that record raises a
  validation error, which leaves \<^verbatim>\<open>scrape_urls\<close> and then the endpoint unhandled.
  The document here has one link annotation with such a URL.
\<close>

theorem unhandled_fault_escapes:
  "fst (worker default_config lib_primary (new_client net_broken) long_url)
     = Raises (PyExn OtherError ''RuntimeError'' ''boom'') \<and>
   scrape_urls default_config lib_primary (new_client net_broken) [long_url]
     = Raises (PyExn ValidationError ''ValidationError'' ''source_url'') \<and>
   scrape_resume_links default_config plain_urllib rt_long_link lib_primary net_broken ''%PDF-1.7''
     = Unhandled (PyExn ValidationError ''ValidationError'' ''source_url'')"
proof -
  have w: "fst (worker default_config lib_primary (new_client net_broken) long_url)
     = Raises (PyExn OtherError ''RuntimeError'' ''boom'')"
    using fetch_net_broken [of long_url]
    by (cases "fetch_html default_config (new_client net_broken) long_url")
       (simp add: worker_def)
  have a: "scrape_urls default_config lib_primary (new_client net_broken) [long_url]
     = Raises (PyExn ValidationError ''ValidationError'' ''source_url'')"
    using w
    by (cases "worker default_config lib_primary (new_client net_broken) long_url")
       (simp add: scrape_urls_def ScrapeItem_new_def long_url_length)
  have b: "MAX_URLS default_config = 40" "MAX_PDF_SIZE_MB default_config = 10"
    by (simp_all add: default_config_def)
  have "scrape_resume_links default_config plain_urllib rt_long_link lib_primary net_broken ''%PDF-1.7''
     = Unhandled (PyExn ValidationError ''ValidationError'' ''source_url'')"
    using a by (simp add: scrape_resume_links_def b extract_long_link new_client_def long_url_def)
  with w a show ?thesis by (intro conjI)
qed

text \<open>
  Claim C4. Every record produced by the orchestrator, by a task or in the list that
  \<^verbatim>\<open>scrape_urls\<close> returns, has exactly one of \<^verbatim>\<open>scraped_text\<close> and
  \<^verbatim>\<open>error_message\<close> populated: the text when the status is success, the message when
  it is error.
\<close>

theorem scrape_item_invariant:
  "(fst (worker cfg lib c url) = Returns it \<longrightarrow> item_invariant it) \<and>
   (scrape_urls cfg lib c urls = Returns items \<longrightarrow> (\<forall>x \<in> set items. item_invariant x))"
  using worker_item [of cfg lib c url it] scrape_urls_returns [of cfg lib c urls items] by blast

theorem scrape_item_invariant_witness:
  "fst (worker default_config lib_primary (new_client net_html) ''http://x.com/a'')
     = Returns \<lparr>source_url = ''http://x.com/a'', status = Success, scraped_text = Some ''hello'',
          error_message = None\<rparr> \<and>
   item_invariant \<lparr>source_url = ''http://x.com/a'', status = Success, scraped_text = Some ''hello'',
          error_message = None\<rparr> \<and>
   scrape_urls default_config lib_primary (new_client net_broken) [''http://x.com/a'']
     = Returns [\<lparr>source_url = ''http://x.com/a'', status = Error, scraped_text = None,
          error_message = Some ''internal error: RuntimeError: boom''\<rparr>] \<and>
   item_invariant \<lparr>source_url = ''http://x.com/a'', status = Error, scraped_text = None,
          error_message = Some ''internal error: RuntimeError: boom''\<rparr>"
proof -
  let ?u = "''http://x.com/a''"
  let ?ok = "\<lparr>source_url = ?u, status = Success, scraped_text = Some ''hello'', error_message = None\<rparr>"
  let ?err = "\<lparr>source_url = ?u, status = Error, scraped_text = None,
          error_message = Some ''internal error: RuntimeError: boom''\<rparr>"
  have w: "fst (worker default_config lib_primary (new_client net_html) ?u) = Returns ?ok"
    by (simp add: worker_net_html new_client_def)
  have a: "item_invariant ?ok"
    using scrape_item_invariant [of default_config lib_primary "new_client net_html" ?u ?ok "[?u]" "[?ok]",
        THEN conjunct1] w
    by (rule mp)
  have b: "\<forall>x \<in> set [?err]. item_invariant x"
    using scrape_item_invariant [of default_config lib_primary "new_client net_broken" ?u ?err "[?u]" "[?err]",
        THEN conjunct2] scrape_short_broken
    by (rule mp)
  then have "item_invariant ?err" by simp
  with w a scrape_short_broken show ?thesis by (intro conjI)
qed

section \<open>Verification: the content extractor\<close>

lemma primary_fails_block: "primary_fails lib html \<longleftrightarrow> primary_block lib html = None"
  by (auto simp: primary_fails_def primary_block_def split: outcome.splits)

lemma secondary_fails_block: "secondary_fails lib html \<longleftrightarrow> secondary_block lib html = None"
  by (auto simp: secondary_fails_def secondary_block_def split: outcome.splits)

lemma extract_fallback:
  "primary_fails lib html \<Longrightarrow>
   extract_main_text lib html = (if HAS_READABILITY lib then secondary_block lib html else None)"
  by (simp add: primary_fails_block extract_main_text_def split: option.splits)

lemma extract_none:
  "primary_fails lib html \<Longrightarrow> \<not> HAS_READABILITY lib \<or> secondary_fails lib html \<Longrightarrow>
   extract_main_text lib html = None"
  by (auto simp: primary_fails_block secondary_fails_block extract_main_text_def)

lemma worker_no_text:
  assumes "length url \<le> 2000" "fst (fetch_html cfg c url) = Returns (Some html, None)"
    "\<not> truthy (extract_main_text lib html)"
  shows "fst (worker cfg lib c url) = Returns \<lparr>source_url = url, status = Error, scraped_text = None,
           error_message = Some ''no main content extracted''\<rparr>"
  using assms
  by (cases "fetch_html cfg c url") (simp add: worker_def ScrapeItem_new_def)

lemma worker_text:
  assumes "length url \<le> 2000" "fst (fetch_html cfg c url) = Returns (Some html, None)"
    "extract_main_text lib html = Some t" "t \<noteq> []"
  shows "fst (worker cfg lib c url) = Returns \<lparr>source_url = url, status = Success,
           scraped_text = Some t, error_message = None\<rparr>"
  using assms
  by (cases "fetch_html cfg c url") (simp add: worker_def ScrapeItem_new_def)

text \<open>
  Claim C6 (amended). When the primary strategy raises or yields a falsy text,
  \<^verbatim>\<open>extract_main_text\<close> gives what the secondary strategy gives, provided that library
  is available, and \<^verbatim>\<open>None\<close> when it is not or when the secondary strategy fails as
  well. For a URL of at most 2000 characters the task turns a missing or empty text
  into a record with status error and the message \<^verbatim>\<open>no main content extracted\<close>, and
  a text into a success record; a success record never has an empty text.
\<close>

theorem extraction_fallback:
  "(primary_fails lib html \<longrightarrow>
      extract_main_text lib html = (if HAS_READABILITY lib then secondary_block lib html else None)) \<and>
   (primary_fails lib html \<and> (\<not> HAS_READABILITY lib \<or> secondary_fails lib html) \<longrightarrow>
      extract_main_text lib html = None) \<and>
   (length url \<le> 2000 \<and> fst (fetch_html cfg c url) = Returns (Some html, None) \<and>
      \<not> truthy (extract_main_text lib html) \<longrightarrow>
      fst (worker cfg lib c url) = Returns \<lparr>source_url = url, status = Error, scraped_text = None,
           error_message = Some ''no main content extracted''\<rparr>) \<and>
   (length url \<le> 2000 \<and> fst (fetch_html cfg c url) = Returns (Some html, None) \<and>
      extract_main_text lib html = Some t \<and> t \<noteq> [] \<longrightarrow>
      fst (worker cfg lib c url) = Returns \<lparr>source_url = url, status = Success,
           scraped_text = Some t, error_message = None\<rparr>) \<and>
   (fst (worker cfg lib c url) = Returns it \<and> status it = Success \<longrightarrow>
      (\<exists>s. scraped_text it = Some s \<and> s \<noteq> []))"
  using extract_fallback [of lib html] extract_none [of lib html]
    worker_no_text [of url cfg c html lib] worker_text [of url cfg c html lib t]
    worker_item [of cfg lib c url it]
  by blast

theorem extraction_fallback_witness:
  "primary_fails lib_none ''<p>hello</p>'' \<and> secondary_fails lib_none ''<p>hello</p>'' \<and>
   fst (worker default_config lib_none (new_client net_html) ''http://x.com/a'')
     = Returns \<lparr>source_url = ''http://x.com/a'', status = Error, scraped_text = None,
           error_message = Some ''no main content extracted''\<rparr> \<and>
   primary_fails lib_secondary ''<p>hello</p>'' \<and>
   fst (worker default_config lib_secondary (new_client net_html) ''http://x.com/a'')
     = Returns \<lparr>source_url = ''http://x.com/a'', status = Success, scraped_text = Some ''hello'',
           error_message = None\<rparr>"
proof -
  let ?u = "''http://x.com/a''" and ?h = "''<p>hello</p>''"
  have f: "fst (fetch_html default_config (new_client net_html) ?u) = Returns (Some ?h, None)"
    by (simp add: fetch_net_html new_client_def)
  have p1: "primary_fails lib_none ?h" and s1: "secondary_fails lib_none ?h"
    by (simp_all add: primary_fails_def secondary_fails_def lib_none_def)
  have p2: "primary_fails lib_secondary ?h"
    by (simp add: primary_fails_def lib_secondary_def)
  have b2: "secondary_block lib_secondary ?h = Some ''hello''"
    by (simp add: secondary_block_def lib_secondary_def clean_hello)
  have av: "HAS_READABILITY lib_none" "HAS_READABILITY lib_secondary"
    by (simp_all add: lib_none_def lib_secondary_def)
  note T1 = extraction_fallback [of lib_none ?h ?u default_config "new_client net_html" "''hello''"]
  note T2 = extraction_fallback [of lib_secondary ?h ?u default_config "new_client net_html" "''hello''"]
  have e1: "extract_main_text lib_none ?h = None"
    using T1 [THEN conjunct2, THEN conjunct1] p1 s1 by simp
  have w1: "fst (worker default_config lib_none (new_client net_html) ?u)
     = Returns \<lparr>source_url = ?u, status = Error, scraped_text = None,
           error_message = Some ''no main content extracted''\<rparr>"
    using T1 [THEN conjunct2, THEN conjunct2, THEN conjunct1] f e1 by simp
  have e2: "extract_main_text lib_secondary ?h = Some ''hello''"
    using T2 [THEN conjunct1] p2 av b2 by simp
  have w2: "fst (worker default_config lib_secondary (new_client net_html) ?u)
     = Returns \<lparr>source_url = ?u, status = Success, scraped_text = Some ''hello'',
           error_message = None\<rparr>"
    using T2 [THEN conjunct2, THEN conjunct2, THEN conjunct2, THEN conjunct1] f e2 by simp
  show ?thesis using p1 s1 w1 p2 w2 by simp
qed

text \<open>
  The claim as stated, for every URL, fails: both strategies fail, and for a URL of 2001
  characters the task raises instead of producing the error record.
\<close>

theorem extraction_fallback_counterexample:
  "primary_fails lib_none ''<p>hello</p>'' \<and> secondary_fails lib_none ''<p>hello</p>'' \<and>
   fst (fetch_html default_config (new_client net_html) long_url) = Returns (Some ''<p>hello</p>'', None) \<and>
   extract_main_text lib_none ''<p>hello</p>'' = None \<and>
   fst (worker default_config lib_none (new_client net_html) long_url)
     = Raises (PyExn ValidationError ''ValidationError'' ''source_url'') \<and>
   scrape_urls default_config lib_none (new_client net_html) [long_url]
     = Raises (PyExn ValidationError ''ValidationError'' ''source_url'')"
proof -
  have p: "primary_fails lib_none ''<p>hello</p>''" and s: "secondary_fails lib_none ''<p>hello</p>''"
    by (simp_all add: primary_fails_def secondary_fails_def lib_none_def)
  have w: "fst (worker default_config lib_none (new_client net_html) long_url)
     = Raises (PyExn ValidationError ''ValidationError'' ''source_url'')"
    by (simp add: extract_lib_none fetch_net_html new_client_def worker_def ScrapeItem_new_def
          long_url_length)
  have r: "scrape_urls default_config lib_none (new_client net_html) [long_url]
     = Raises (PyExn ValidationError ''ValidationError'' ''source_url'')"
    by (simp add: extract_lib_none fetch_net_html new_client_def worker_def scrape_urls_def
          ScrapeItem_new_def long_url_length)
  show ?thesis
    using p s w r by (simp add: extract_lib_none fetch_net_html new_client_def)
qed

section \<open>Verification: the upload endpoint\<close>

lemma too_large_iff:
  "(\<exists>d. scrape_resume_links cfg ul rt lib net content = HTTPException 413 d) \<longleftrightarrow>
   real (length content) / (1024 * 1024) > MAX_PDF_SIZE_MB cfg"
  by (auto simp: scrape_resume_links_def Let_def split: outcome.splits)

lemma parse_reached:
  assumes "real (length content) / (1024 * 1024) \<le> MAX_PDF_SIZE_MB cfg"
    "fitz_open rt content = Raises e" "exn_cls e = FileDataError"
  shows "scrape_resume_links cfg ul rt lib net content = HTTPException 400 ''Invalid or corrupted PDF''"
  using assms by (simp add: scrape_resume_links_def extract_pdf_urls_def Let_def)

lemma parse_result:
  assumes "real (length content) / (1024 * 1024) \<le> MAX_PDF_SIZE_MB cfg"
    "extract_pdf_urls ul rt content (MAX_URLS cfg) = Returns urls" "urls \<noteq> []"
  shows "scrape_resume_links cfg ul rt lib net content =
     (case scrape_urls cfg lib \<lparr>handler = net, requests = []\<rparr> urls of
        Raises e \<Rightarrow> Unhandled e | Returns items \<Rightarrow> JSONResponse items)"
  using assms by (simp add: scrape_resume_links_def Let_def)

text \<open>
  Claim C10. The endpoint answers 413 exactly when the size of the document in MB is
  strictly greater than the configured maximum. A document whose size equals the
  maximum is not rejected for its size: it is handed to the parser, and the answer is
  the one that parsing and scraping produce.
\<close>

theorem size_limit_strict:
  "((\<exists>d. scrape_resume_links cfg ul rt lib net content = HTTPException 413 d) \<longleftrightarrow>
      real (length content) / (1024 * 1024) > MAX_PDF_SIZE_MB cfg) \<and>
   (real (length content) / (1024 * 1024) = MAX_PDF_SIZE_MB cfg \<longrightarrow>
      (\<forall>d. scrape_resume_links cfg ul rt lib net content \<noteq> HTTPException 413 d) \<and>
      (\<forall>e. fitz_open rt content = Raises e \<and> exn_cls e = FileDataError \<longrightarrow>
         scrape_resume_links cfg ul rt lib net content = HTTPException 400 ''Invalid or corrupted PDF'') \<and>
      (\<forall>urls. extract_pdf_urls ul rt content (MAX_URLS cfg) = Returns urls \<and> urls \<noteq> [] \<longrightarrow>
         scrape_resume_links cfg ul rt lib net content =
           (case scrape_urls cfg lib \<lparr>handler = net, requests = []\<rparr> urls of
              Raises e \<Rightarrow> Unhandled e | Returns items \<Rightarrow> JSONResponse items)))"
proof -
  have a: "(\<exists>d. scrape_resume_links cfg ul rt lib net content = HTTPException 413 d) \<longleftrightarrow>
      real (length content) / (1024 * 1024) > MAX_PDF_SIZE_MB cfg"
    by (rule too_large_iff)
  have b: "\<forall>d. scrape_resume_links cfg ul rt lib net content \<noteq> HTTPException 413 d"
    if "real (length content) / (1024 * 1024) = MAX_PDF_SIZE_MB cfg"
    using that a by auto
  show ?thesis
    using a b parse_reached [of content cfg rt _ ul lib net]
      parse_result [of content cfg ul rt _ lib net]
    by (intro conjI impI allI) auto
qed

theorem size_limit_strict_witness:
  "real (length (replicate 10485760 CHR ''a'')) / (1024 * 1024) = MAX_PDF_SIZE_MB default_config \<and>
   scrape_resume_links default_config plain_urllib rt_corrupt lib_primary net_html
     (replicate 10485760 CHR ''a'') = HTTPException 400 ''Invalid or corrupted PDF'' \<and>
   (\<exists>d. scrape_resume_links default_config plain_urllib rt_corrupt lib_primary net_html
     (replicate 10485761 CHR ''a'') = HTTPException 413 d)"
proof -
  let ?e = "PyExn FileDataError ''FileDataError'' ''cannot open''"
  have m: "MAX_PDF_SIZE_MB default_config = 10" by (simp add: default_config_def)
  have eq: "real (length (replicate 10485760 CHR ''a'')) / (1024 * 1024) = MAX_PDF_SIZE_MB default_config"
    by (simp add: m)
  have gt: "real (length (replicate 10485761 CHR ''a'')) / (1024 * 1024) > MAX_PDF_SIZE_MB default_config"
    by (simp add: m)
  have f: "fitz_open rt_corrupt (replicate 10485760 CHR ''a'') = Raises ?e \<and> exn_cls ?e = FileDataError"
    by (simp add: rt_corrupt_def)
  note T1 = size_limit_strict [of default_config plain_urllib rt_corrupt lib_primary net_html
      "replicate 10485760 CHR ''a''"]
  note T2 = size_limit_strict [of default_config plain_urllib rt_corrupt lib_primary net_html
      "replicate 10485761 CHR ''a''"]
  have r1: "scrape_resume_links default_config plain_urllib rt_corrupt lib_primary net_html
     (replicate 10485760 CHR ''a'') = HTTPException 400 ''Invalid or corrupted PDF''"
    using T1 [THEN conjunct2, THEN mp, OF eq, THEN conjunct2, THEN conjunct1, THEN spec, of ?e] f
    by blast
  have r2: "\<exists>d. scrape_resume_links default_config plain_urllib rt_corrupt lib_primary net_html
     (replicate 10485761 CHR ''a'') = HTTPException 413 d"
    using T2 [THEN conjunct1] gt by blast
  show ?thesis using eq r1 r2 by blast
qed

section \<open>Verification: link extraction\<close>

lemma set_add_props: "set (set_add x xs) = insert x (set xs)" "distinct xs \<Longrightarrow> distinct (set_add x xs)"
  by (auto simp: set_add_def)

lemma add_normalized_set:
  "set (add_normalized ul urls raw) = set urls \<union> set (normalized ul [raw])"
  by (auto simp: add_normalized_def normalized_def set_add_props Let_def)

lemma add_normalized_distinct: "distinct urls \<Longrightarrow> distinct (add_normalized ul urls raw)"
  by (simp add: add_normalized_def set_add_props Let_def)

lemma normalized_append: "normalized ul (xs @ ys) = normalized ul xs @ normalized ul ys"
  by (simp add: normalized_def)

lemma normalized_Cons: "set (normalized ul (x # xs)) = set (normalized ul [x]) \<union> set (normalized ul xs)"
  using normalized_append [of ul "[x]" xs] by simp

lemma foldl_add_normalized:
  "set (foldl (add_normalized ul) urls raws) = set urls \<union> set (normalized ul raws) \<and>
   (distinct urls \<longrightarrow> distinct (foldl (add_normalized ul) urls raws))"
proof (induction raws arbitrary: urls)
  case Nil
  then show ?case by (simp add: normalized_def)
next
  case (Cons r rs)
  show ?case
    using Cons.IH [of "add_normalized ul urls r"] normalized_Cons [of ul r rs]
    by (auto simp: add_normalized_set add_normalized_distinct)
qed

lemma foldl_links:
  "foldl (\<lambda>acc uri. if truthy uri then add_normalized ul acc (the uri) else acc) urls ls
     = foldl (add_normalized ul) urls (map the (filter truthy ls))"
  by (induction ls arbitrary: urls) auto

lemma page_urls:
  "set (page_link_urls ul pg (page_text_urls ul pg urls)) = set urls \<union> set (normalized ul (page_candidates pg)) \<and>
   (distinct urls \<longrightarrow> distinct (page_link_urls ul pg (page_text_urls ul pg urls)))"
proof -
  let ?ts = "case get_text pg of Raises e \<Rightarrow> [] | Returns t \<Rightarrow> findall (case t of None \<Rightarrow> [] | Some s \<Rightarrow> s)"
  let ?ls = "case get_links pg of Raises e \<Rightarrow> []
      | Returns ls \<Rightarrow> map the (filter truthy (case ls of None \<Rightarrow> [] | Some l \<Rightarrow> l))"
  have t: "page_text_urls ul pg urls = foldl (add_normalized ul) urls ?ts"
    by (simp add: page_text_urls_def split: outcome.splits)
  have l: "page_link_urls ul pg us = foldl (add_normalized ul) us ?ls" for us
    by (simp add: page_link_urls_def foldl_links split: outcome.splits)
  have c: "page_candidates pg = ?ts @ ?ls"
    by (simp add: page_candidates_def)
  show ?thesis
    unfolding t l c normalized_append
    using foldl_add_normalized [of ul urls ?ts]
      foldl_add_normalized [of ul "foldl (add_normalized ul) urls ?ts" ?ls]
    by auto
qed

lemma foldl_pages:
  "set (foldl (\<lambda>urls pg. page_link_urls ul pg (page_text_urls ul pg urls)) urls doc)
     = set urls \<union> set (found_urls ul doc) \<and>
   (distinct urls \<longrightarrow> distinct (foldl (\<lambda>urls pg. page_link_urls ul pg (page_text_urls ul pg urls)) urls doc))"
proof (induction doc arbitrary: urls)
  case Nil
  then show ?case by (simp add: found_urls_def normalized_def)
next
  case (Cons pg doc)
  have f: "set (found_urls ul (pg # doc)) = set (normalized ul (page_candidates pg)) \<union> set (found_urls ul doc)"
    by (simp add: found_urls_def normalized_append)
  show ?case
    using Cons.IH [of "page_link_urls ul pg (page_text_urls ul pg urls)"] page_urls [of ul pg urls] f
    by auto
qed

lemma collect_urls_found:
  "set (collect_urls ul doc) = set (found_urls ul doc)" "distinct (collect_urls ul doc)"
  using foldl_pages [of ul "[]" doc] by (simp_all add: collect_urls_def)

lemma shuffle_loop_mset:
  "i < length x \<Longrightarrow> mset (shuffle_loop rb i x) = mset x"
proof (induction i arbitrary: x)
  case 0
  then show ?case by simp
next
  case (Suc i)
  let ?j = "rb (Suc i) mod (Suc i + 1)"
  have "?j < Suc i + 1" by (rule mod_less_divisor) simp
  with Suc.prems have j: "?j < length x" by linarith
  have "mset (x[Suc i := x ! ?j, ?j := x ! Suc i]) = mset x"
    using mset_swap [OF j Suc.prems] .
  moreover have "i < length (x[Suc i := x ! ?j, ?j := x ! Suc i])"
    using Suc.prems by simp
  ultimately show ?case
    using Suc.IH [of "x[Suc i := x ! ?j, ?j := x ! Suc i]"] by (simp add: Let_def)
qed

lemma shuffle_mset: "mset (shuffle rb x) = mset x"
  by (cases x) (simp_all add: shuffle_def shuffle_loop_mset)

lemma url_list_props:
  "set (shuffle rb (sort_key f xs)) = set xs" "distinct (shuffle rb (sort_key f xs)) = distinct xs"
  "length (shuffle rb (sort_key f xs)) = length xs"
proof -
  have m: "mset (shuffle rb (sort_key f xs)) = mset xs" by (simp add: shuffle_mset)
  show "set (shuffle rb (sort_key f xs)) = set xs" using m by (metis set_mset_mset)
  show "distinct (shuffle rb (sort_key f xs)) = distinct xs" using m by (metis mset_eq_imp_distinct_iff)
  show "length (shuffle rb (sort_key f xs)) = length xs" using m by (metis size_mset)
qed

lemma rstrip_where_append:
  "\<forall>c \<in> set p. P c \<Longrightarrow> rstrip_where P (u @ p) = rstrip_where P u"
  by (induction p rule: rev_induct) (simp_all add: rstrip_where_def)

lemma punct_not_space: "c \<in> set TRAILING_PUNCT \<Longrightarrow> \<not> isspace c"
  by (auto simp: TRAILING_PUNCT_def isspace_def code_point_def)

lemma rstrip_where_id: "u = [] \<or> \<not> P (last u) \<Longrightarrow> rstrip_where P u = u"
  by (cases u rule: rev_cases) (simp_all add: rstrip_where_def)

lemma lstrip_where_append:
  "u \<noteq> [] \<Longrightarrow> \<not> P (last u) \<Longrightarrow> lstrip_where P (u @ p) = lstrip_where P u @ p"
  unfolding lstrip_where_def
  by (rule dropWhile_append1 [of "last u"]) simp_all

lemma lstrip_where_last:
  "u \<noteq> [] \<Longrightarrow> \<not> P (last u) \<Longrightarrow> lstrip_where P u \<noteq> [] \<and> last (lstrip_where P u) = last u"
  unfolding lstrip_where_def
  by (induction u) (auto split: if_splits)

lemma strip_punct_variant:
  assumes "set p \<subseteq> set TRAILING_PUNCT" "u = [] \<or> \<not> isspace (last u)"
  shows "strip_trailing_punct (str_strip (u @ p)) = strip_trailing_punct (str_strip u)"
proof (cases "u = []")
  case True
  have "lstrip_where isspace p = p"
    using assms(1) punct_not_space by (cases p) (auto simp: lstrip_where_def)
  moreover have "rstrip_where isspace p = p"
    using assms(1) punct_not_space by (intro rstrip_where_id) (cases p rule: rev_cases, auto)
  moreover have "rstrip_where (\<lambda>c. c \<in> set TRAILING_PUNCT) ([] @ p) = rstrip_where (\<lambda>c. c \<in> set TRAILING_PUNCT) []"
    using assms(1) by (intro rstrip_where_append) auto
  ultimately show ?thesis
    using True by (simp add: str_strip_def strip_trailing_punct_def lstrip_where_def rstrip_where_def)
next
  case False
  with assms(2) have ns: "\<not> isspace (last u)" by simp
  let ?v = "lstrip_where isspace u"
  have v: "?v \<noteq> []" "last ?v = last u" using lstrip_where_last [of u isspace] False ns by simp_all
  have l: "lstrip_where isspace (u @ p) = ?v @ p" using lstrip_where_append [of u isspace p] False ns by simp
  have "last (?v @ p) = (if p = [] then last u else last p)" using v by simp
  moreover have "p \<noteq> [] \<Longrightarrow> \<not> isspace (last p)"
    using assms(1) punct_not_space [of "last p"] by (meson last_in_set subsetD)
  ultimately have "\<not> isspace (last (?v @ p))" using ns by auto
  then have r1: "rstrip_where isspace (?v @ p) = ?v @ p" by (intro rstrip_where_id) simp
  have r2: "rstrip_where isspace ?v = ?v" using v ns by (intro rstrip_where_id) simp
  have "rstrip_where (\<lambda>c. c \<in> set TRAILING_PUNCT) (?v @ p) = rstrip_where (\<lambda>c. c \<in> set TRAILING_PUNCT) ?v"
    using assms(1) by (intro rstrip_where_append) auto
  then show ?thesis by (simp add: str_strip_def strip_trailing_punct_def l r1 r2)
qed

lemma normalize_punct_variant:
  assumes "set p \<subseteq> set TRAILING_PUNCT" "u = [] \<or> \<not> isspace (last u)"
  shows "normalize_url ul (u @ p) = normalize_url ul u"
  using strip_punct_variant [OF assms] by (simp add: normalize_url_def Let_def)

lemma extract_pdf_urls_take:
  assumes "fitz_open rt pdf_bytes = Returns doc"
  shows "\<exists>l. extract_pdf_urls ul rt pdf_bytes k = Returns (slice_to l k) \<and> distinct l \<and>
           set l = set (found_urls ul doc) \<and> length l = card (set (found_urls ul doc))"
proof -
  let ?l = "shuffle (randbelow rt) (sort_key (set_rank rt) (collect_urls ul doc))"
  have "extract_pdf_urls ul rt pdf_bytes k = Returns (slice_to ?l k)"
    using assms by (simp add: extract_pdf_urls_def Let_def)
  moreover have d: "distinct ?l" and s: "set ?l = set (found_urls ul doc)"
    by (simp_all add: url_list_props collect_urls_found)
  moreover have "length ?l = card (set (found_urls ul doc))"
    using d s by (metis distinct_card)
  ultimately show ?thesis by blast
qed

text \<open>
  Claim C3 (amended). For every document that can be opened and every cap \<open>k \<ge> 0\<close>,
  \<^verbatim>\<open>extract_pdf_urls\<close> returns URLs found in the document, without repetition, and
  their number is the smaller of \<open>k\<close> and the number of distinct normalized URLs found;
  when the cap is not reached, every URL found is returned. A URL and the same URL
  followed by characters of the trailing punctuation set have the same normal form, so
  that both occurrences yield one entry.
\<close>

theorem extract_pdf_urls_cap:
  assumes "fitz_open rt pdf_bytes = Returns doc" "0 \<le> k"
  shows "\<exists>urls. extract_pdf_urls ul rt pdf_bytes k = Returns urls \<and> distinct urls \<and>
           set urls \<subseteq> set (found_urls ul doc) \<and>
           int (length urls) = min k (int (card (set (found_urls ul doc)))) \<and>
           (int (card (set (found_urls ul doc))) \<le> k \<longrightarrow> set urls = set (found_urls ul doc)) \<and>
           (\<forall>u p. set p \<subseteq> set TRAILING_PUNCT \<and> (u = [] \<or> \<not> isspace (last u)) \<longrightarrow>
              normalize_url ul (u @ p) = normalize_url ul u)"
proof -
  from extract_pdf_urls_take [OF assms(1), of ul k] obtain l where
    r: "extract_pdf_urls ul rt pdf_bytes k = Returns (slice_to l k)" and d: "distinct l"
    and s: "set l = set (found_urls ul doc)" and n: "length l = card (set (found_urls ul doc))"
    by blast
  have t: "slice_to l k = take (nat k) l" using assms(2) by (simp add: slice_to_def)
  have "distinct (take (nat k) l)" using d by simp
  moreover have "set (take (nat k) l) \<subseteq> set (found_urls ul doc)"
    using s by (metis set_take_subset)
  moreover have "int (length (take (nat k) l)) = min k (int (card (set (found_urls ul doc))))"
    using assms(2) n by (simp add: min_def; linarith)
  moreover have "set (take (nat k) l) = set (found_urls ul doc)"
    if "int (card (set (found_urls ul doc))) \<le> k"
    using that n s by simp
  ultimately show ?thesis
    using r t normalize_punct_variant [of _ _ ul] by auto
qed

lemma two_url_page_card: "card (set (found_urls plain_urllib [two_url_page])) = 2"
  by code_simp

theorem extract_pdf_urls_cap_witness:
  "fitz_open rt_two_urls ''%PDF'' = Returns [two_url_page] \<and>
   extract_pdf_urls plain_urllib rt_two_urls ''%PDF'' 40 = Returns [''http://www.b.org'', ''http://a.com/x''] \<and>
   (\<exists>urls. extract_pdf_urls plain_urllib rt_two_urls ''%PDF'' 1 = Returns urls \<and> length urls = 1) \<and>
   normalize_url plain_urllib (''http://a.com/x'' @ '').'') = normalize_url plain_urllib ''http://a.com/x''"
proof -
  have o: "fitz_open rt_two_urls ''%PDF'' = Returns [two_url_page]"
    by (simp add: rt_two_urls_def)
  have e: "extract_pdf_urls plain_urllib rt_two_urls ''%PDF'' 40
      = Returns [''http://www.b.org'', ''http://a.com/x'']"
    by code_simp
  from extract_pdf_urls_cap [OF o, of 1 plain_urllib] obtain urls where
    u: "extract_pdf_urls plain_urllib rt_two_urls ''%PDF'' 1 = Returns urls"
    and l: "int (length urls) = min 1 (int (card (set (found_urls plain_urllib [two_url_page]))))"
    and v: "\<forall>u p. set p \<subseteq> set TRAILING_PUNCT \<and> (u = [] \<or> \<not> isspace (last u)) \<longrightarrow>
              normalize_url plain_urllib (u @ p) = normalize_url plain_urllib u"
    by auto
  from l have "length urls = 1" by (simp add: two_url_page_card)
  moreover have "normalize_url plain_urllib (''http://a.com/x'' @ '').'') = normalize_url plain_urllib ''http://a.com/x''"
    by (rule v [rule_format]) (simp add: TRAILING_PUNCT_def isspace_def code_point_def)
  ultimately show ?thesis using o e u by blast
qed

text \<open>
  The claim as stated, for every cap, fails for a negative one: the slice then drops
  entries from the end, and the length is not the minimum of the cap and the count.
\<close>

theorem extract_pdf_urls_cap_counterexample:
  "extract_pdf_urls plain_urllib rt_two_urls ''%PDF'' (- 1) = Returns [''http://www.b.org''] \<and>
   int (length [''http://www.b.org'']) \<noteq> min (- 1) (int (card (set (found_urls plain_urllib [two_url_page]))))"
proof -
  have "extract_pdf_urls plain_urllib rt_two_urls ''%PDF'' (- 1) = Returns [''http://www.b.org'']"
    by code_simp
  then show ?thesis by (simp add: two_url_page_card)
qed

section \<open>Verification: URL normalization\<close>

lemma takeWhile_stop:
  "\<forall>x \<in> set a. P x \<Longrightarrow> b = [] \<or> \<not> P (hd b) \<Longrightarrow>
   takeWhile P (a @ b) = a \<and> dropWhile P (a @ b) = b"
  by (cases b) (simp_all add: takeWhile_append2 dropWhile_append2)

lemma urlsplit_stages:
  "urlsplit ul url0 =
     (let url2 = filter (\<lambda>c. c \<notin> set UNSAFE_URL_BYTES_TO_REMOVE) (lstrip_where WHATWG_C0_CONTROL_OR_SPACE url0);
          sch = fst (split_scheme url2);
          url3 = snd (split_scheme url2);
          nl = (if take 2 url3 = ''//'' then fst (splitnetloc url3) else []);
          url4 = (if take 2 url3 = ''//'' then snd (splitnetloc url3) else url3);
          url5 = (if CHR ''#'' \<in> set url4 then fst (split_first CHR ''#'' url4) else url4);
          frag = (if CHR ''#'' \<in> set url4 then snd (split_first CHR ''#'' url4) else []);
          url6 = (if CHR ''?'' \<in> set url5 then fst (split_first CHR ''?'' url5) else url5);
          qu = (if CHR ''?'' \<in> set url5 then snd (split_first CHR ''?'' url5) else [])
      in if (take 2 url3 = ''//'' \<and> \<not> check_brackets ul nl) \<or> \<not> checknetloc ul nl then None
         else Some \<lparr>scheme = sch, netloc = nl, path = url6, query = qu, fragment = frag\<rparr>)"
  by (simp add: urlsplit_def Let_def split_def)

lemma split_scheme_subset: "set (snd (split_scheme z)) \<subseteq> set z"
  by (auto simp: split_scheme_def split: option.splits dest: in_set_dropD)

lemma before_first_props:
  "c \<notin> set (if c \<in> set s then fst (split_first c s) else s)"
  "set (if c \<in> set s then fst (split_first c s) else s) \<subseteq> set s"
  "set (if c \<in> set s then snd (split_first c s) else []) \<subseteq> set s"
  "(if c \<in> set s then fst (split_first c s) else s) \<noteq> [] \<Longrightarrow>
     hd (if c \<in> set s then fst (split_first c s) else s) = hd s"
proof -
  have h: "takeWhile P s \<noteq> [] \<Longrightarrow> hd (takeWhile P s) = hd s" for P
    by (cases s) (auto split: if_splits)
  show "c \<notin> set (if c \<in> set s then fst (split_first c s) else s)"
    by (auto simp: split_first_def dest: set_takeWhileD)
  show "set (if c \<in> set s then fst (split_first c s) else s) \<subseteq> set s"
    by (auto simp: split_first_def dest: set_takeWhileD)
  show "set (if c \<in> set s then snd (split_first c s) else []) \<subseteq> set s"
    by (auto simp: split_first_def dest: in_set_dropD set_dropWhileD)
  show "(if c \<in> set s then fst (split_first c s) else s) \<noteq> [] \<Longrightarrow>
     hd (if c \<in> set s then fst (split_first c s) else s) = hd s"
    using h [of "\<lambda>x. x \<noteq> c"] by (auto simp: split_first_def)
qed

lemma urlsplit_netloc_props:
  assumes "urlsplit ul x = Some p" "netloc p \<noteq> []"
  shows "\<forall>c \<in> set (netloc p). c \<notin> set ''/?#''"
    and "path p = [] \<or> hd (path p) = CHR ''/''"
    and "CHR ''#'' \<notin> set (path p)" and "CHR ''?'' \<notin> set (path p)"
    and "CHR ''#'' \<notin> set (query p)"
    and "\<forall>c \<in> set (netloc p @ path p @ query p). c \<notin> set UNSAFE_URL_BYTES_TO_REMOVE"
    and "check_brackets ul (netloc p)" and "checknetloc ul (netloc p)"
proof -
  define url2 where "url2 = filter (\<lambda>c. c \<notin> set UNSAFE_URL_BYTES_TO_REMOVE)
      (lstrip_where WHATWG_C0_CONTROL_OR_SPACE x)"
  define url3 where "url3 = snd (split_scheme url2)"
  define nl where "nl = (if take 2 url3 = ''//'' then fst (splitnetloc url3) else [])"
  define url4 where "url4 = (if take 2 url3 = ''//'' then snd (splitnetloc url3) else url3)"
  define url5 where "url5 = (if CHR ''#'' \<in> set url4 then fst (split_first CHR ''#'' url4) else url4)"
  define url6 where "url6 = (if CHR ''?'' \<in> set url5 then fst (split_first CHR ''?'' url5) else url5)"
  define qu where "qu = (if CHR ''?'' \<in> set url5 then snd (split_first CHR ''?'' url5) else [])"
  have ok: "\<not> ((take 2 url3 = ''//'' \<and> \<not> check_brackets ul nl) \<or> \<not> checknetloc ul nl)"
    and p: "netloc p = nl" "path p = url6" "query p = qu"
    using assms(1) unfolding urlsplit_stages [of ul x]
    by (auto simp: Let_def url2_def url3_def nl_def url4_def url5_def url6_def qu_def split: if_splits)
  from assms(2) p have has: "take 2 url3 = ''//''" by (auto simp: nl_def split: if_splits)
  have nl: "nl = takeWhile (\<lambda>c. c \<notin> set ''/?#'') (drop 2 url3)"
    and u4: "url4 = dropWhile (\<lambda>c. c \<notin> set ''/?#'') (drop 2 url3)"
    using has by (simp_all add: nl_def url4_def splitnetloc_def)
  show "\<forall>c \<in> set (netloc p). c \<notin> set ''/?#''"
    unfolding p nl by (auto dest: set_takeWhileD)
  have h4: "url4 = [] \<or> hd url4 \<in> set ''/?#''"
    unfolding u4 using hd_dropWhile [of "\<lambda>c. c \<notin> set ''/?#''" "drop 2 url3"] by auto
  have n5: "CHR ''#'' \<notin> set url5" and s5: "set url5 \<subseteq> set url4"
    and h5: "url5 \<noteq> [] \<Longrightarrow> hd url5 = hd url4"
    unfolding url5_def using before_first_props [of "CHR ''#''" url4] by blast+
  have n6: "CHR ''?'' \<notin> set url6" and s6: "set url6 \<subseteq> set url5"
    and h6: "url6 \<noteq> [] \<Longrightarrow> hd url6 = hd url5"
    and sq: "set qu \<subseteq> set url5"
    unfolding url6_def qu_def using before_first_props [of "CHR ''?''" url5] by blast+
  show "CHR ''#'' \<notin> set (path p)" using n5 s6 p by auto
  show "CHR ''?'' \<notin> set (path p)" using n6 p by auto
  show "CHR ''#'' \<notin> set (query p)" using n5 sq p by auto
  show "path p = [] \<or> hd (path p) = CHR ''/''"
  proof (cases "url6 = []")
    case True
    then show ?thesis using p by simp
  next
    case False
    then have "url5 \<noteq> []" using s6 by auto
    then have "url4 \<noteq> []" using s5 by auto
    with h4 h5 h6 False \<open>url5 \<noteq> []\<close> have "hd url6 \<in> set ''/?#''" by simp
    moreover have "hd url6 \<in> set url6" using False by simp
    ultimately have "hd url6 = CHR ''/''" using n6 n5 s6 by auto
    then show ?thesis using p by simp
  qed
  have "set url2 \<inter> set UNSAFE_URL_BYTES_TO_REMOVE = {}" by (auto simp: url2_def)
  moreover have "set url3 \<subseteq> set url2" unfolding url3_def by (rule split_scheme_subset)
  moreover have "set nl \<subseteq> set url3" unfolding nl by (auto dest: set_takeWhileD in_set_dropD)
  moreover have "set url4 \<subseteq> set url3" unfolding u4 by (auto dest: set_dropWhileD in_set_dropD)
  ultimately have "set nl \<union> set url6 \<union> set qu \<subseteq> set url2"
    and "set url2 \<inter> set UNSAFE_URL_BYTES_TO_REMOVE = {}"
    using s5 s6 sq by blast+
  then show "\<forall>c \<in> set (netloc p @ path p @ query p). c \<notin> set UNSAFE_URL_BYTES_TO_REMOVE"
    unfolding p set_append by blast
  show "check_brackets ul (netloc p)" "checknetloc ul (netloc p)"
    using ok has p by auto
qed


lemma urlunsplit_canonical:
  assumes "netloc p \<noteq> []" "path p = [] \<or> hd (path p) = CHR ''/''" "scheme p \<noteq> []"
  shows "urlunsplit (p\<lparr>fragment := []\<rparr>) =
     scheme p @ ''://'' @ netloc p @ path p @ (if query p \<noteq> [] then ''?'' @ query p else [])"
proof -
  have "path p \<noteq> [] \<Longrightarrow> take 1 (path p) = ''/''"
    using assms(2) by (cases "path p") auto
  then show ?thesis using assms(1,3) by (auto simp: urlunsplit_def Let_def)
qed

lemma lstrip_http: "lstrip_where WHATWG_C0_CONTROL_OR_SPACE (CHR ''h'' # t) = CHR ''h'' # t"
  by (simp add: lstrip_where_def WHATWG_C0_CONTROL_OR_SPACE_def code_point_def)

lemma split_scheme_http: "split_scheme (''http://'' @ t) = (''http'', ''//'' @ t)"
  by (simp add: split_scheme_def str_find_def ascii_alpha_def scheme_chars_def ascii_digit_def
          code_point_def str_lower_def char_lower_def)

lemma split_scheme_https: "split_scheme (''https://'' @ t) = (''https'', ''//'' @ t)"
  by (simp add: split_scheme_def str_find_def ascii_alpha_def scheme_chars_def ascii_digit_def
          code_point_def str_lower_def char_lower_def)

lemma splitnetloc_canonical:
  assumes "\<forall>c \<in> set nl. c \<notin> set ''/?#''" "r = [] \<or> hd r \<in> set ''/?#''"
  shows "splitnetloc (''//'' @ nl @ r) = (nl, r)"
  using takeWhile_stop [of nl "\<lambda>c. c \<notin> set ''/?#''" r] assms
  by (simp add: splitnetloc_def)

lemma split_query_canonical:
  assumes "CHR ''?'' \<notin> set pa"
  shows "(if CHR ''?'' \<in> set (pa @ (if qu \<noteq> [] then ''?'' @ qu else []))
          then split_first CHR ''?'' (pa @ (if qu \<noteq> [] then ''?'' @ qu else []))
          else (pa @ (if qu \<noteq> [] then ''?'' @ qu else []), [])) = (pa, qu)"
proof (cases "qu = []")
  case True
  with assms show ?thesis by simp
next
  case False
  have "takeWhile (\<lambda>x. x \<noteq> CHR ''?'') (pa @ CHR ''?'' # qu) = pa \<and>
        dropWhile (\<lambda>x. x \<noteq> CHR ''?'') (pa @ CHR ''?'' # qu) = CHR ''?'' # qu"
    using assms by (induction pa) auto
  with False show ?thesis by (simp add: split_first_def)
qed

lemma urlsplit_after_scheme:
  assumes u: "lstrip_where WHATWG_C0_CONTROL_OR_SPACE u = u"
      "filter (\<lambda>c. c \<notin> set UNSAFE_URL_BYTES_TO_REMOVE) u = u"
      "split_scheme u = (sch, ''//'' @ nl @ pa @ (if qu \<noteq> [] then ''?'' @ qu else []))"
    and nl: "\<forall>c \<in> set nl. c \<notin> set ''/?#''"
    and pa: "pa = [] \<or> hd pa = CHR ''/''" "CHR ''#'' \<notin> set pa" "CHR ''?'' \<notin> set pa"
    and qu: "CHR ''#'' \<notin> set qu"
    and chk: "check_brackets ul nl" "checknetloc ul nl"
  shows "urlsplit ul u = Some \<lparr>scheme = sch, netloc = nl, path = pa, query = qu, fragment = []\<rparr>"
proof -
  define r where "r = pa @ (if qu \<noteq> [] then ''?'' @ qu else [])"
  have b: "r = [] \<or> hd r \<in> set ''/?#''"
    using pa(1) by (cases pa) (auto simp: r_def)
  have n: "splitnetloc (''//'' @ nl @ r) = (nl, r)"
    by (rule splitnetloc_canonical [OF nl b])
  have h: "CHR ''#'' \<notin> set r"
    using pa(2) qu by (simp add: r_def)
  have k: "(if CHR ''?'' \<in> set r then split_first CHR ''?'' r else (r, [])) = (pa, qu)"
    unfolding r_def by (rule split_query_canonical [OF pa(3)])
  have s: "split_scheme u = (sch, ''//'' @ nl @ r)"
    using u(3) by (simp add: r_def)
  have t2: "take 2 (''//'' @ nl @ r) = ''//''" by simp
  show ?thesis
    unfolding urlsplit_def u(1) u(2) Let_def s prod.case t2 n
    using h k chk by simp
qed

lemma normalize_url_prepared:
  "normalize_url ul raw =
     (case urlsplit ul (prepared raw) of
        None \<Rightarrow> None
      | Some p \<Rightarrow>
          (if scheme p \<notin> {''http'', ''https''} \<or> netloc p = [] then None
           else Some (urlunsplit (p\<lparr>fragment := []\<rparr>))))"
  by (simp add: normalize_url_def prepared_def Let_def split: option.splits)

lemma prepared_id:
  assumes "hd u = CHR ''h''" "u \<noteq> []" "\<not> strippable_end u"
  shows "prepared u = u"
proof -
  from assms obtain t where u: "u = CHR ''h'' # t" by (cases u) auto
  have ns: "\<not> isspace (last u)" and np: "last u \<notin> set TRAILING_PUNCT"
    using assms(2,3) by (auto simp: strippable_end_def)
  have "lstrip_where isspace u = u"
    by (simp add: u lstrip_where_def isspace_def code_point_def)
  moreover have "rstrip_where isspace u = u" using ns by (intro rstrip_where_id) simp
  ultimately have s: "str_strip u = u" by (simp add: str_strip_def)
  have p: "strip_trailing_punct u = u"
    unfolding strip_trailing_punct_def using np by (intro rstrip_where_id) simp
  have "\<not> startswith (str_lower u) ''www.''"
    by (simp add: u startswith_def str_lower_def char_lower_def code_point_def)
  then show ?thesis by (simp add: prepared_def s p)
qed

lemma safe_http:
  "filter (\<lambda>c. c \<notin> set UNSAFE_URL_BYTES_TO_REMOVE) t = t \<Longrightarrow>
   filter (\<lambda>c. c \<notin> set UNSAFE_URL_BYTES_TO_REMOVE) (''http://'' @ t) = ''http://'' @ t"
  "filter (\<lambda>c. c \<notin> set UNSAFE_URL_BYTES_TO_REMOVE) t = t \<Longrightarrow>
   filter (\<lambda>c. c \<notin> set UNSAFE_URL_BYTES_TO_REMOVE) (''https://'' @ t) = ''https://'' @ t"
  by (simp_all add: UNSAFE_URL_BYTES_TO_REMOVE_def)

lemma safe_parts:
  assumes "\<forall>c \<in> set (nl @ pa @ qu). c \<notin> set UNSAFE_URL_BYTES_TO_REMOVE"
  shows "filter (\<lambda>c. c \<notin> set UNSAFE_URL_BYTES_TO_REMOVE) (nl @ pa @ (if qu \<noteq> [] then ''?'' @ qu else []))
     = nl @ pa @ (if qu \<noteq> [] then ''?'' @ qu else [])"
proof -
  have "CHR ''?'' \<notin> set UNSAFE_URL_BYTES_TO_REMOVE"
    by (simp add: UNSAFE_URL_BYTES_TO_REMOVE_def)
  with assms have "\<forall>c \<in> set (nl @ pa @ (if qu \<noteq> [] then ''?'' @ qu else [])). c \<notin> set UNSAFE_URL_BYTES_TO_REMOVE"
    by (cases "qu = []") auto
  then show ?thesis by (simp only: filter_id_conv)
qed

lemma resplit_prefix:
  assumes pre: "pre = ''http'' \<or> pre = ''https''"
    and f: "filter (\<lambda>c. c \<notin> set UNSAFE_URL_BYTES_TO_REMOVE) t = t"
  shows "lstrip_where WHATWG_C0_CONTROL_OR_SPACE (pre @ ''://'' @ t) = pre @ ''://'' @ t"
    and "filter (\<lambda>c. c \<notin> set UNSAFE_URL_BYTES_TO_REMOVE) (pre @ ''://'' @ t) = pre @ ''://'' @ t"
    and "split_scheme (pre @ ''://'' @ t) = (pre, ''//'' @ t)"
    and "hd (pre @ ''://'' @ t) = CHR ''h''"
proof -
  from pre show "lstrip_where WHATWG_C0_CONTROL_OR_SPACE (pre @ ''://'' @ t) = pre @ ''://'' @ t"
  proof
    assume "pre = ''http''"
    then show ?thesis using lstrip_http [of "''ttp://'' @ t"] by simp
  next
    assume "pre = ''https''"
    then show ?thesis using lstrip_http [of "''ttps://'' @ t"] by simp
  qed
  from pre show "filter (\<lambda>c. c \<notin> set UNSAFE_URL_BYTES_TO_REMOVE) (pre @ ''://'' @ t) = pre @ ''://'' @ t"
  proof
    assume "pre = ''http''"
    then show ?thesis using safe_http(1) [OF f] by simp
  next
    assume "pre = ''https''"
    then show ?thesis using safe_http(2) [OF f] by simp
  qed
  from pre show "split_scheme (pre @ ''://'' @ t) = (pre, ''//'' @ t)"
  proof
    assume "pre = ''http''"
    then show ?thesis using split_scheme_http [of t] by simp
  next
    assume "pre = ''https''"
    then show ?thesis using split_scheme_https [of t] by simp
  qed
  from pre show "hd (pre @ ''://'' @ t) = CHR ''h''"
  proof
    assume "pre = ''http''"
    then show ?thesis by simp
  next
    assume "pre = ''https''"
    then show ?thesis by simp
  qed
qed

lemma reassembled_split:
  assumes p: "urlsplit ul x = Some p" and nl: "netloc p \<noteq> []"
    and sc: "scheme p = ''http'' \<or> scheme p = ''https''"
  shows "urlsplit ul (urlunsplit (p\<lparr>fragment := []\<rparr>)) = Some (p\<lparr>fragment := []\<rparr>)"
    and "hd (urlunsplit (p\<lparr>fragment := []\<rparr>)) = CHR ''h''"
    and "urlunsplit (p\<lparr>fragment := []\<rparr>) \<noteq> []"
proof -
  note P = urlsplit_netloc_props [OF p nl]
  define t where "t = netloc p @ path p @ (if query p \<noteq> [] then ''?'' @ query p else [])"
  have ne: "scheme p \<noteq> []" using sc by (rule disjE) simp_all
  have shape: "urlunsplit (p\<lparr>fragment := []\<rparr>) = scheme p @ ''://'' @ t"
    unfolding t_def by (rule urlunsplit_canonical [OF nl P(2) ne])
  have f: "filter (\<lambda>c. c \<notin> set UNSAFE_URL_BYTES_TO_REMOVE) t = t"
    unfolding t_def by (rule safe_parts [OF P(6)])
  note R = resplit_prefix [OF sc f]
  have s: "split_scheme (scheme p @ ''://'' @ t)
      = (scheme p, ''//'' @ netloc p @ path p @ (if query p \<noteq> [] then ''?'' @ query p else []))"
    using R(3) by (simp only: t_def)
  have "urlsplit ul (scheme p @ ''://'' @ t)
      = Some \<lparr>scheme = scheme p, netloc = netloc p, path = path p, query = query p, fragment = []\<rparr>"
    by (rule urlsplit_after_scheme [OF R(1) R(2) s P(1) P(2) P(3) P(4) P(5) P(7) P(8)])
  then show "urlsplit ul (urlunsplit (p\<lparr>fragment := []\<rparr>)) = Some (p\<lparr>fragment := []\<rparr>)"
    by (simp add: shape)
  show "hd (urlunsplit (p\<lparr>fragment := []\<rparr>)) = CHR ''h''"
    unfolding shape by (rule R(4))
  show "urlunsplit (p\<lparr>fragment := []\<rparr>) \<noteq> []"
    unfolding shape by simp
qed

lemma normalize_url_accepted:
  assumes "normalize_url ul raw = Some u"
  obtains p where "urlsplit ul (prepared raw) = Some p"
    "scheme p = ''http'' \<or> scheme p = ''https''" "netloc p \<noteq> []"
    "u = urlunsplit (p\<lparr>fragment := []\<rparr>)"
proof (cases "urlsplit ul (prepared raw)")
  case None
  with assms show ?thesis by (simp add: normalize_url_prepared)
next
  case (Some p)
  with assms have "\<not> (scheme p \<notin> {''http'', ''https''} \<or> netloc p = [])"
    and "u = urlunsplit (p\<lparr>fragment := []\<rparr>)"
    by (simp_all add: normalize_url_prepared split: if_splits)
  with Some that show ?thesis by simp
qed

text \<open>
  Claim C8 (amended). When \<^verbatim>\<open>normalize_url\<close> accepts a raw string and the canonical URL
  \<open>u\<close> it returns does not end in a whitespace or trailing punctuation character,
  normalizing \<open>u\<close> returns \<open>u\<close> itself.
\<close>

theorem normalize_url_idempotent:
  assumes "normalize_url ul raw = Some u" "\<not> strippable_end u"
  shows "normalize_url ul u = Some u"
proof -
  from normalize_url_accepted [OF assms(1)] obtain p where
    p: "urlsplit ul (prepared raw) = Some p"
    and sc: "scheme p = ''http'' \<or> scheme p = ''https''" and nl: "netloc p \<noteq> []"
    and u: "u = urlunsplit (p\<lparr>fragment := []\<rparr>)"
    by blast
  note R = reassembled_split [OF p nl sc]
  have sp: "urlsplit ul u = Some (p\<lparr>fragment := []\<rparr>)" and h: "hd u = CHR ''h''"
    unfolding u by (rule R(1), rule R(2))
  have "u \<noteq> []" unfolding u by (rule R(3))
  with h assms(2) have pr: "prepared u = u" by (intro prepared_id)
  have "scheme (p\<lparr>fragment := []\<rparr>) \<in> {''http'', ''https''}" using sc by (rule disjE) simp_all
  moreover have "netloc (p\<lparr>fragment := []\<rparr>) \<noteq> []" using nl by simp
  moreover have "urlunsplit (p\<lparr>fragment := []\<rparr>\<lparr>fragment := []\<rparr>) = u" by (simp add: u)
  ultimately show ?thesis
    by (simp add: normalize_url_prepared pr sp)
qed

theorem normalize_url_idempotent_witness:
  "normalize_url plain_urllib '' WWW.Example.com/a?q=1#top). '' = Some ''http://WWW.Example.com/a?q=1'' \<and>
   \<not> strippable_end ''http://WWW.Example.com/a?q=1'' \<and>
   normalize_url plain_urllib ''http://WWW.Example.com/a?q=1'' = Some ''http://WWW.Example.com/a?q=1''"
proof -
  have a: "normalize_url plain_urllib '' WWW.Example.com/a?q=1#top). '' = Some ''http://WWW.Example.com/a?q=1''"
    by code_simp
  have b: "\<not> strippable_end ''http://WWW.Example.com/a?q=1''"
    by (simp add: strippable_end_def isspace_def code_point_def TRAILING_PUNCT_def)
  from normalize_url_idempotent [OF a b] a b show ?thesis by (intro conjI)
qed

text \<open>
  The claim as stated, for every accepted output, fails: dropping the fragment can
  expose a trailing dot, which the second normalization strips.
\<close>

theorem normalize_url_idempotent_counterexample:
  "normalize_url plain_urllib ''http://x.com/a.#f'' = Some ''http://x.com/a.'' \<and>
   normalize_url plain_urllib ''http://x.com/a.'' = Some ''http://x.com/a'' \<and>
   ''http://x.com/a'' \<noteq> ''http://x.com/a.''"
  by code_simp

lemma while_stop:
  "\<not> P c \<Longrightarrow> takeWhile P (d @ c # f) = takeWhile P d"
  "\<not> P c \<Longrightarrow> dropWhile P (d @ c # f) = dropWhile P d @ c # f"
  by (induction d) auto

lemma takeWhile_before: "c \<in> set z \<Longrightarrow> length (takeWhile (\<lambda>x. x \<noteq> c) z) < length z"
  by (induction z) auto

lemma lstrip_where_stop: "\<not> P c \<Longrightarrow> lstrip_where P (a @ c # b) = lstrip_where P a @ c # b"
  by (simp add: lstrip_where_def while_stop)

lemma rstrip_where_stop: "\<not> P c \<Longrightarrow> rstrip_where P (a @ c # b) = a @ c # rstrip_where P b"
  using while_stop(2) [of P c "rev b" "rev a"] by (simp add: rstrip_where_def)

lemma startswith_stop: "c \<notin> set p \<Longrightarrow> startswith (a @ c # b) p \<longleftrightarrow> startswith a p"
proof (cases "length p \<le> length a")
  case True
  then show ?thesis by (simp add: startswith_def)
next
  case False
  assume c: "c \<notin> set p"
  from False have "take (length p) a \<noteq> p" by (metis length_take min.cobounded2 not_le_imp_less leD nat_le_linear min_def)
  moreover have "take (length p) (a @ c # b) \<noteq> p"
  proof
    assume e: "take (length p) (a @ c # b) = p"
    from False have "c \<in> set (take (length p) (a @ c # b))"
      by (cases "length p - length a") auto
    with e c show False by simp
  qed
  ultimately show ?thesis by (simp add: startswith_def)
qed

lemma hash_facts:
  "\<not> isspace CHR ''#''" "CHR ''#'' \<notin> set TRAILING_PUNCT" "\<not> WHATWG_C0_CONTROL_OR_SPACE CHR ''#''"
  "CHR ''#'' \<notin> set UNSAFE_URL_BYTES_TO_REMOVE" "\<not> scheme_chars CHR ''#''" "char_lower CHR ''#'' = CHR ''#''"
  by (simp_all add: isspace_def TRAILING_PUNCT_def WHATWG_C0_CONTROL_OR_SPACE_def
        UNSAFE_URL_BYTES_TO_REMOVE_def scheme_chars_def ascii_alpha_def ascii_digit_def
        char_lower_def code_point_def)

lemma prepared_fragment:
  assumes "\<not> strippable_end raw"
  shows "\<exists>f. prepared (raw @ CHR ''#'' # frag) = prepared raw @ CHR ''#'' # f"
proof -
  define x where "x = lstrip_where isspace raw"
  have x: "x = [] \<or> (\<not> isspace (last x) \<and> last x \<notin> set TRAILING_PUNCT)"
  proof (cases "raw = []")
    case True
    then show ?thesis by (simp add: x_def lstrip_where_def)
  next
    case False
    with assms have "\<not> isspace (last raw)" "last raw \<notin> set TRAILING_PUNCT"
      by (auto simp: strippable_end_def)
    with lstrip_where_last [of raw isspace] False show ?thesis by (simp add: x_def)
  qed
  have r: "strip_trailing_punct (str_strip raw) = x"
  proof -
    have "rstrip_where isspace x = x" using x by (intro rstrip_where_id) auto
    moreover have "rstrip_where (\<lambda>c. c \<in> set TRAILING_PUNCT) x = x"
      using x by (intro rstrip_where_id) auto
    ultimately show ?thesis by (simp add: str_strip_def strip_trailing_punct_def x_def)
  qed
  define f where "f = rstrip_where (\<lambda>c. c \<in> set TRAILING_PUNCT) (rstrip_where isspace frag)"
  have w: "strip_trailing_punct (str_strip (raw @ CHR ''#'' # frag)) = x @ CHR ''#'' # f"
    by (simp add: str_strip_def strip_trailing_punct_def x_def f_def lstrip_where_stop
          rstrip_where_stop hash_facts)
  have "startswith (str_lower (x @ CHR ''#'' # f)) ''www.'' \<longleftrightarrow> startswith (str_lower x) ''www.''"
    using startswith_stop [of "CHR ''#''" "''www.''" "str_lower x" "str_lower f"]
    by (simp add: str_lower_def hash_facts)
  then show ?thesis by (auto simp: prepared_def r w)
qed

lemma split_scheme_fragment:
  "split_scheme (z @ CHR ''#'' # f) = (fst (split_scheme z), snd (split_scheme z) @ CHR ''#'' # f)"
proof (cases "CHR '':'' \<in> set z")
  case True
  define i where "i = length (takeWhile (\<lambda>x. x \<noteq> CHR '':'') z)"
  have i: "i < length z"
    unfolding i_def using True by (rule takeWhile_before)
  then have z: "z \<noteq> []" by auto
  have t: "takeWhile (\<lambda>x. x \<noteq> CHR '':'') (z @ CHR ''#'' # f) = takeWhile (\<lambda>x. x \<noteq> CHR '':'') z"
    using True by (simp add: takeWhile_append1)
  have a: "str_find CHR '':'' (z @ CHR ''#'' # f) = Some i" "str_find CHR '':'' z = Some i"
    using True by (simp_all add: str_find_def t i_def)
  have b: "take i (z @ CHR ''#'' # f) = take i z" "hd (z @ CHR ''#'' # f) = hd z"
    "drop (i + 1) (z @ CHR ''#'' # f) = drop (i + 1) z @ CHR ''#'' # f"
    using i z by simp_all
  have L: "split_scheme (z @ CHR ''#'' # f) =
      (if i > 0 \<and> ascii_alpha (hd (z @ CHR ''#'' # f)) \<and>
          (\<forall>c \<in> set (take i (z @ CHR ''#'' # f)). scheme_chars c)
       then (str_lower (take i (z @ CHR ''#'' # f)), drop (i + 1) (z @ CHR ''#'' # f))
       else ([], z @ CHR ''#'' # f))"
    by (simp only: split_scheme_def a option.case)
  have R: "split_scheme z =
      (if i > 0 \<and> ascii_alpha (hd z) \<and> (\<forall>c \<in> set (take i z). scheme_chars c)
       then (str_lower (take i z), drop (i + 1) z) else ([], z))"
    by (simp only: split_scheme_def a option.case)
  show ?thesis unfolding L R b
    by (cases "i > 0 \<and> ascii_alpha (hd z) \<and> (\<forall>c \<in> set (take i z). scheme_chars c)")
       (simp, auto)
next
  case False
  then have s: "split_scheme z = ([], z)" by (simp add: split_scheme_def str_find_def)
  show ?thesis
  proof (cases "CHR '':'' \<in> set f")
    case f: False
    with False show ?thesis by (simp add: split_scheme_def str_find_def s)
  next
    case True
    define i where "i = length (takeWhile (\<lambda>x. x \<noteq> CHR '':'') (z @ CHR ''#'' # f))"
    have "takeWhile (\<lambda>x. x \<noteq> CHR '':'') (z @ CHR ''#'' # f)
        = z @ CHR ''#'' # takeWhile (\<lambda>x. x \<noteq> CHR '':'') f"
      using False by (induction z) auto
    then have "length z < i" by (simp add: i_def)
    then have "CHR ''#'' \<in> set (take i (z @ CHR ''#'' # f))"
      by (cases "i - length z") auto
    then have "\<not> (\<forall>c \<in> set (take i (z @ CHR ''#'' # f)). scheme_chars c)"
      using hash_facts(5) by blast
    then have n: "\<not> (i > 0 \<and> ascii_alpha (hd (z @ CHR ''#'' # f)) \<and>
        (\<forall>c \<in> set (take i (z @ CHR ''#'' # f)). scheme_chars c))"
      by blast
    have F: "str_find CHR '':'' (z @ CHR ''#'' # f) = Some i"
      using True by (simp add: str_find_def i_def)
    have L: "split_scheme (z @ CHR ''#'' # f) = ([], z @ CHR ''#'' # f)"
      by (simp only: split_scheme_def F option.case n if_False)
    show ?thesis by (simp only: L s fst_conv snd_conv)
  qed
qed

lemma take2_stop: "take 2 (s @ CHR ''#'' # f) = ''//'' \<longleftrightarrow> take 2 s = ''//''"
  using startswith_stop [of "CHR ''#''" "''//''" s f] by (simp add: startswith_def numeral_2_eq_2)

lemma splitnetloc_fragment:
  assumes "take 2 s = ''//''"
  shows "splitnetloc (s @ CHR ''#'' # f) = (fst (splitnetloc s), snd (splitnetloc s) @ CHR ''#'' # f)"
proof -
  from assms have "length s \<ge> 2" by (cases s; cases "tl s") auto
  then have d: "drop 2 (s @ CHR ''#'' # f) = drop 2 s @ CHR ''#'' # f" by simp
  show ?thesis
    unfolding splitnetloc_def d
    using while_stop [of "\<lambda>c. c \<notin> set ''/?#''" "CHR ''#''" "drop 2 s" f] by simp
qed

lemma before_hash:
  "fst (split_first CHR ''#'' (s @ CHR ''#'' # f))
     = (if CHR ''#'' \<in> set s then fst (split_first CHR ''#'' s) else s)"
proof -
  have "takeWhile (\<lambda>x. x \<noteq> CHR ''#'') (s @ CHR ''#'' # f) = takeWhile (\<lambda>x. x \<noteq> CHR ''#'') s"
    using while_stop(1) [of "\<lambda>x. x \<noteq> CHR ''#''" "CHR ''#''" s f] by simp
  moreover have "CHR ''#'' \<notin> set s \<Longrightarrow> takeWhile (\<lambda>x. x \<noteq> CHR ''#'') s = s"
    by (induction s) auto
  ultimately show ?thesis by (simp add: split_first_def)
qed

lemma urlsplit_fragment:
  "\<exists>g. urlsplit ul (y @ CHR ''#'' # f) = map_option (\<lambda>p. p\<lparr>fragment := g\<rparr>) (urlsplit ul y)"
proof -
  define url2 where "url2 = filter (\<lambda>c. c \<notin> set UNSAFE_URL_BYTES_TO_REMOVE)
      (lstrip_where WHATWG_C0_CONTROL_OR_SPACE y)"
  define f2 where "f2 = filter (\<lambda>c. c \<notin> set UNSAFE_URL_BYTES_TO_REMOVE) f"
  define sch where "sch = fst (split_scheme url2)"
  define url3 where "url3 = snd (split_scheme url2)"
  define nl where "nl = (if take 2 url3 = ''//'' then fst (splitnetloc url3) else [])"
  define url4 where "url4 = (if take 2 url3 = ''//'' then snd (splitnetloc url3) else url3)"
  define url5 where "url5 = (if CHR ''#'' \<in> set url4 then fst (split_first CHR ''#'' url4) else url4)"
  define frag where "frag = (if CHR ''#'' \<in> set url4 then snd (split_first CHR ''#'' url4) else [])"
  define url6 where "url6 = (if CHR ''?'' \<in> set url5 then fst (split_first CHR ''?'' url5) else url5)"
  define qu where "qu = (if CHR ''?'' \<in> set url5 then snd (split_first CHR ''?'' url5) else [])"
  define bad where "bad \<longleftrightarrow> (take 2 url3 = ''//'' \<and> \<not> check_brackets ul nl) \<or> \<not> checknetloc ul nl"
  have R: "urlsplit ul y = (if bad then None
      else Some \<lparr>scheme = sch, netloc = nl, path = url6, query = qu, fragment = frag\<rparr>)"
    unfolding urlsplit_stages [of ul y]
    by (simp add: Let_def url2_def sch_def url3_def nl_def url4_def url5_def frag_def url6_def qu_def
          bad_def)
  have a: "filter (\<lambda>c. c \<notin> set UNSAFE_URL_BYTES_TO_REMOVE)
      (lstrip_where WHATWG_C0_CONTROL_OR_SPACE (y @ CHR ''#'' # f)) = url2 @ CHR ''#'' # f2"
    by (simp add: lstrip_where_stop hash_facts url2_def f2_def)
  have b: "split_scheme (url2 @ CHR ''#'' # f2) = (sch, url3 @ CHR ''#'' # f2)"
    by (simp add: split_scheme_fragment sch_def url3_def)
  have c: "take 2 (url3 @ CHR ''#'' # f2) = ''//'' \<longleftrightarrow> take 2 url3 = ''//''"
    by (rule take2_stop)
  have d: "(if take 2 url3 = ''//'' then fst (splitnetloc (url3 @ CHR ''#'' # f2)) else []) = nl"
    "(if take 2 url3 = ''//'' then snd (splitnetloc (url3 @ CHR ''#'' # f2)) else url3 @ CHR ''#'' # f2)
       = url4 @ CHR ''#'' # f2"
    by (simp_all add: splitnetloc_fragment nl_def url4_def)
  have e: "CHR ''#'' \<in> set (url4 @ CHR ''#'' # f2)" by simp
  have g: "fst (split_first CHR ''#'' (url4 @ CHR ''#'' # f2)) = url5"
    by (simp only: before_hash url5_def)
  have L: "urlsplit ul (y @ CHR ''#'' # f) = (if bad then None
      else Some \<lparr>scheme = sch, netloc = nl, path = url6, query = qu,
        fragment = snd (split_first CHR ''#'' (url4 @ CHR ''#'' # f2))\<rparr>)"
    unfolding urlsplit_stages [of ul "y @ CHR ''#'' # f"] Let_def a b fst_conv snd_conv c d
    by (simp only: e if_True g url6_def qu_def bad_def)
  show ?thesis
    unfolding L R by (intro exI [of _ "snd (split_first CHR ''#'' (url4 @ CHR ''#'' # f2))"]) simp
qed

lemma normalize_url_fragment:
  assumes "\<not> strippable_end raw"
  shows "normalize_url ul (raw @ CHR ''#'' # frag) = normalize_url ul raw"
proof -
  from prepared_fragment [OF assms, of frag] obtain f where
    f: "prepared (raw @ CHR ''#'' # frag) = prepared raw @ CHR ''#'' # f" by blast
  from urlsplit_fragment [of ul "prepared raw" f] obtain g where
    g: "urlsplit ul (prepared raw @ CHR ''#'' # f)
        = map_option (\<lambda>p. p\<lparr>fragment := g\<rparr>) (urlsplit ul (prepared raw))" by blast
  show ?thesis
    unfolding normalize_url_prepared [of ul "raw @ CHR ''#'' # frag"] normalize_url_prepared [of ul raw] f g
    by (cases "urlsplit ul (prepared raw)") simp_all
qed

lemma normalize_url_None:
  "normalize_url ul raw = None \<longleftrightarrow>
   (case urlsplit ul (prepared raw) of
      None \<Rightarrow> True
    | Some p \<Rightarrow> scheme p \<notin> {''http'', ''https''} \<or> netloc p = [])"
  by (simp add: normalize_url_prepared split: option.splits)

lemma normalize_url_Some:
  assumes "normalize_url ul raw = Some u"
  shows "\<exists>p. urlsplit ul (prepared raw) = Some p \<and> u = urlunsplit (p\<lparr>fragment := []\<rparr>) \<and>
           urlsplit ul u = Some (p\<lparr>fragment := []\<rparr>)"
proof -
  from normalize_url_accepted [OF assms] obtain p where
    p: "urlsplit ul (prepared raw) = Some p"
    and sc: "scheme p = ''http'' \<or> scheme p = ''https''" and nl: "netloc p \<noteq> []"
    and u: "u = urlunsplit (p\<lparr>fragment := []\<rparr>)"
    by blast
  have "urlsplit ul u = Some (p\<lparr>fragment := []\<rparr>)"
    unfolding u by (rule reassembled_split(1) [OF p nl sc])
  with p u show ?thesis by blast
qed

lemma normalize_url_same_parts:
  assumes "urlsplit ul (prepared a) = Some p" "urlsplit ul (prepared b) = Some q"
    "p\<lparr>fragment := []\<rparr> = q\<lparr>fragment := []\<rparr>"
  shows "normalize_url ul a = normalize_url ul b"
proof -
  have "scheme (p\<lparr>fragment := []\<rparr>) = scheme (q\<lparr>fragment := []\<rparr>)"
    "netloc (p\<lparr>fragment := []\<rparr>) = netloc (q\<lparr>fragment := []\<rparr>)"
    using assms(3) by simp_all
  then have "scheme p = scheme q" "netloc p = netloc q" by simp_all
  with assms show ?thesis by (simp add: normalize_url_prepared)
qed

text \<open>
  Claim C7 (amended). \<^verbatim>\<open>normalize_url\<close> rejects a raw string exactly when its prepared
  form fails to parse, or parses with a scheme other than \<^verbatim>\<open>http\<close> and \<^verbatim>\<open>https\<close>, or
  with an empty network location (the host component of the specification). An accepted
  output is the URL reassembled from the parsed components with the fragment dropped,
  and it parses back into those components with an empty fragment. Two inputs whose
  parsed components differ only in the fragment normalize to the same string; so do
  \<open>raw\<close> and \<open>raw\<close> followed by \<^verbatim>\<open>#\<close> and any fragment, when \<open>raw\<close> does not end in a
  whitespace or trailing punctuation character.
\<close>

theorem normalize_url_rejection:
  "(normalize_url ul raw = None \<longleftrightarrow>
      (case urlsplit ul (prepared raw) of
         None \<Rightarrow> True
       | Some p \<Rightarrow> scheme p \<notin> {''http'', ''https''} \<or> netloc p = [])) \<and>
   (normalize_url ul raw = Some u \<longrightarrow>
      (\<exists>p. urlsplit ul (prepared raw) = Some p \<and> u = urlunsplit (p\<lparr>fragment := []\<rparr>) \<and>
           urlsplit ul u = Some (p\<lparr>fragment := []\<rparr>))) \<and>
   (urlsplit ul (prepared a) = Some p \<and> urlsplit ul (prepared b) = Some q \<and>
      p\<lparr>fragment := []\<rparr> = q\<lparr>fragment := []\<rparr> \<longrightarrow> normalize_url ul a = normalize_url ul b) \<and>
   (\<not> strippable_end raw \<longrightarrow> normalize_url ul (raw @ CHR ''#'' # frag) = normalize_url ul raw)"
  using normalize_url_None [of ul raw] normalize_url_Some [of ul raw u]
    normalize_url_same_parts [of ul a p b q] normalize_url_fragment [of raw ul frag]
  by (intro conjI impI) (assumption | elim conjE | simp)+

theorem normalize_url_rejection_witness:
  "\<not> strippable_end ''https://x.com/a'' \<and>
   normalize_url plain_urllib (''https://x.com/a'' @ CHR ''#'' # ''frag'')
     = normalize_url plain_urllib ''https://x.com/a'' \<and>
   normalize_url plain_urllib ''https://x.com/a'' = Some ''https://x.com/a'' \<and>
   normalize_url plain_urllib ''ftp://x.com'' = None \<and>
   normalize_url plain_urllib ''not a url'' = None"
proof -
  have a: "\<not> strippable_end ''https://x.com/a''"
    by (simp add: strippable_end_def isspace_def code_point_def TRAILING_PUNCT_def)
  note T = normalize_url_rejection [of plain_urllib "''https://x.com/a''" "''https://x.com/a''"
      "''https://x.com/a''"
      "\<lparr>scheme = ''https'', netloc = ''x.com'', path = ''/a'', query = [], fragment = []\<rparr>"
      "''https://x.com/a''"
      "\<lparr>scheme = ''https'', netloc = ''x.com'', path = ''/a'', query = [], fragment = []\<rparr>"
      "''frag''"]
  have b: "normalize_url plain_urllib (''https://x.com/a'' @ CHR ''#'' # ''frag'')
     = normalize_url plain_urllib ''https://x.com/a''"
    using T [THEN conjunct2, THEN conjunct2, THEN conjunct2] a by (rule mp)
  have c: "normalize_url plain_urllib ''https://x.com/a'' = Some ''https://x.com/a''"
    by code_simp
  have d: "normalize_url plain_urllib ''ftp://x.com'' = None"
    "normalize_url plain_urllib ''not a url'' = None"
    by code_simp+
  from a b c d show ?thesis by (intro conjI)
qed

text \<open>
  The claim as stated, for any two inputs that differ only by their fragment, fails:
  the closing parenthesis is stripped from the input without a fragment and kept in
  the one with a fragment.
\<close>

theorem normalize_url_rejection_counterexample:
  "normalize_url plain_urllib ''https://x.com/a)#top'' = Some ''https://x.com/a)'' \<and>
   normalize_url plain_urllib ''https://x.com/a)'' = Some ''https://x.com/a'' \<and>
   ''https://x.com/a)'' \<noteq> ''https://x.com/a''"
  by code_simp

section \<open>Verification: the concurrency bound\<close>

lemma filter_update_length:
  "i < length xs \<Longrightarrow>
   length (filter P (xs[i := y])) + (if P (xs ! i) then 1 else 0)
     = length (filter P xs) + (if P y then 1 else 0)"
proof (induction xs arbitrary: i)
  case Nil
  then show ?case by simp
next
  case (Cons x xs)
  then show ?case by (cases i) auto
qed

lemma step_slots:
  assumes "step s e = Some s'"
  shows "in_flight s' + sem_value s' = in_flight s + sem_value s"
proof -
  let ?P = "\<lambda>t. t = Fetching \<or> t = Extracting"
  note F = filter_update_length [of _ "tasks s" ?P]
  show ?thesis
  proof (cases e)
    case (Dispatch i)
    with assms F [of i Delayed] show ?thesis
      by (auto simp: in_flight_def set_task_def at_state_def split: if_splits)
  next
    case (Wake i)
    with assms F [of i Waiting] show ?thesis
      by (auto simp: in_flight_def set_task_def at_state_def split: if_splits)
  next
    case (Acquire i)
    with assms F [of i Fetching] show ?thesis
      by (auto simp: in_flight_def set_task_def at_state_def split: if_splits)
  next
    case (Fetched i ok)
    with assms F [of i Extracting] F [of i Done] show ?thesis
      by (auto simp: in_flight_def set_task_def at_state_def split: if_splits)
  next
    case (Extracted i)
    with assms F [of i Done] show ?thesis
      by (auto simp: in_flight_def set_task_def at_state_def split: if_splits)
  qed
qed

lemma run_slots:
  "run s es = Some s' \<Longrightarrow> in_flight s' + sem_value s' = in_flight s + sem_value s"
proof (induction es arbitrary: s)
  case Nil
  then show ?case by simp
next
  case (Cons e es)
  then obtain s1 where s1: "step s e = Some s1" and r: "run s1 es = Some s'"
    by (auto split: option.splits)
  from Cons.IH [OF r] step_slots [OF s1] show ?case by simp
qed

lemma step_enters_only_by_acquire:
  assumes "step s e = Some s'" "at_state s' i Fetching" "\<not> at_state s i Fetching"
  shows "e = Acquire i \<and> sem_value s > 0 \<and> sem_value s' = sem_value s - 1"
  using assms
  by (cases e)
     (auto simp: set_task_def at_state_def nth_list_update split: if_splits)

lemma run_append:
  "run s (es @ fs) = (case run s es of None \<Rightarrow> None | Some s' \<Rightarrow> run s' fs)"
  by (induction es arbitrary: s) (auto split: option.splits)

lemma update_between:
  "(replicate k b @ replicate (Suc m) a @ rest)[k := b] = replicate (Suc k) b @ replicate m a @ rest"
  "(replicate k b @ replicate (Suc m) a @ rest) ! k = a"
  "k < length (replicate k b @ replicate (Suc m) a @ rest)"
  by (simp_all add: list_update_append nth_append replicate_append_same)

lemma run_dispatch:
  "run \<lparr>sem_value = c, tasks = replicate k Delayed @ replicate m Pending @ rest\<rparr> (map Dispatch [k..<k + m])
     = Some \<lparr>sem_value = c, tasks = replicate (k + m) Delayed @ rest\<rparr>"
proof (induction m arbitrary: k)
  case 0
  then show ?case by simp
next
  case (Suc m)
  have "[k..<k + Suc m] = k # [Suc k..<Suc k + m]" by (simp add: upt_rec)
  then show ?case
    using Suc.IH [of "Suc k"] update_between [of k Delayed m Pending rest]
    by (simp add: at_state_def set_task_def)
qed

lemma run_wake:
  "run \<lparr>sem_value = c, tasks = replicate k Waiting @ replicate m Delayed @ rest\<rparr> (map Wake [k..<k + m])
     = Some \<lparr>sem_value = c, tasks = replicate (k + m) Waiting @ rest\<rparr>"
proof (induction m arbitrary: k)
  case 0
  then show ?case by simp
next
  case (Suc m)
  have "[k..<k + Suc m] = k # [Suc k..<Suc k + m]" by (simp add: upt_rec)
  then show ?case
    using Suc.IH [of "Suc k"] update_between [of k Waiting m Delayed rest]
    by (simp add: at_state_def set_task_def)
qed

lemma run_acquire:
  "run \<lparr>sem_value = c + m, tasks = replicate k Fetching @ replicate m Waiting @ rest\<rparr>
       (map Acquire [k..<k + m])
     = Some \<lparr>sem_value = c, tasks = replicate (k + m) Fetching @ rest\<rparr>"
proof (induction m arbitrary: k)
  case 0
  then show ?case by simp
next
  case (Suc m)
  have "[k..<k + Suc m] = k # [Suc k..<Suc k + m]" by (simp add: upt_rec)
  then show ?case
    using Suc.IH [of "Suc k"] update_between [of k Fetching m Waiting rest]
    by (simp add: at_state_def set_task_def)
qed

lemma all_slots_taken:
  "\<exists>es s. run (start c n) es = Some s \<and> in_flight s = min n c \<and> blocked s = n - min n c"
proof -
  define a where "a = min n c"
  define w where "w = n - a"
  have n: "n = a + w" and c: "c = (c - a) + a" by (simp_all add: a_def w_def)
  let ?es = "map Dispatch [0..<0 + n] @ map Wake [0..<0 + n] @ map Acquire [0..<0 + a]"
  let ?s = "\<lparr>sem_value = c - a, tasks = replicate a Fetching @ replicate w Waiting\<rparr>"
  have d: "run (start c n) (map Dispatch [0..<0 + n]) = Some \<lparr>sem_value = c, tasks = replicate n Delayed\<rparr>"
    using run_dispatch [of c 0 n "[]"] by (simp add: start_def)
  have k: "run \<lparr>sem_value = c, tasks = replicate n Delayed\<rparr> (map Wake [0..<0 + n])
      = Some \<lparr>sem_value = c, tasks = replicate n Waiting\<rparr>"
    using run_wake [of c 0 n "[]"] by simp
  have "replicate n Waiting = replicate 0 Fetching @ replicate a Waiting @ replicate w Waiting"
    by (subst n) (simp add: replicate_add)
  moreover have "run \<lparr>sem_value = (c - a) + a, tasks = replicate 0 Fetching @ replicate a Waiting @ replicate w Waiting\<rparr>
      (map Acquire [0..<0 + a]) = Some \<lparr>sem_value = c - a, tasks = replicate (0 + a) Fetching @ replicate w Waiting\<rparr>"
    by (rule run_acquire)
  ultimately have q: "run \<lparr>sem_value = c, tasks = replicate n Waiting\<rparr> (map Acquire [0..<0 + a]) = Some ?s"
    using c by simp
  have "run (start c n) ?es = Some ?s"
    by (simp only: run_append d k q option.case)
  moreover have "in_flight ?s = a" "blocked ?s = w"
    by (simp_all add: in_flight_def blocked_def)
  ultimately show ?thesis unfolding a_def [symmetric] w_def [symmetric] by blast
qed

text \<open>
  Claim C9. In every state that the tasks of a run can reach, the number of tasks that
  are fetching or extracting is at most \<^verbatim>\<open>Config.CONCURRENCY\<close>: together with the
  counter of the semaphore it is always the number of slots. A task starts to fetch
  only by acquiring the semaphore, which needs a positive counter. The tasks waiting
  for a slot are not bounded: with \<open>n\<close> tasks and \<open>c\<close> slots, a state is reachable in
  which \<open>min n c\<close> tasks are fetching and all the others are blocked at the semaphore.
\<close>

theorem concurrency_bound:
  "(ScraperService_init cfg = Returns c \<and> run (start c n) es = Some s \<longrightarrow>
      int (in_flight s) \<le> CONCURRENCY cfg \<and> in_flight s + sem_value s = c) \<and>
   (step t e = Some t' \<and> at_state t' i Fetching \<and> \<not> at_state t i Fetching \<longrightarrow>
      e = Acquire i \<and> sem_value t > 0) \<and>
   (\<exists>es' s'. run (start c n) es' = Some s' \<and> in_flight s' = min n c \<and> blocked s' = n - min n c)"
proof -
  have "int (in_flight s) \<le> CONCURRENCY cfg \<and> in_flight s + sem_value s = c"
    if i: "ScraperService_init cfg = Returns c" and r: "run (start c n) es = Some s"
  proof -
    from i have c: "CONCURRENCY cfg = int c"
      by (auto simp: ScraperService_init_def split: if_splits)
    have "in_flight (start c n) = 0" by (simp add: in_flight_def start_def)
    with run_slots [OF r] have "in_flight s + sem_value s = c" by (simp add: start_def)
    with c show ?thesis by simp
  qed
  then show ?thesis
    using step_enters_only_by_acquire [of t e t' i] all_slots_taken [of c n] by blast
qed

theorem concurrency_bound_witness:
  "ScraperService_init two_slot_config = Returns 2 \<and>
   run (start 2 3) [Dispatch 0, Dispatch 1, Dispatch 2, Wake 0, Wake 1, Wake 2, Acquire 0, Acquire 1]
     = Some \<lparr>sem_value = 0, tasks = [Fetching, Fetching, Waiting]\<rparr> \<and>
   int (in_flight \<lparr>sem_value = 0, tasks = [Fetching, Fetching, Waiting]\<rparr>) \<le> CONCURRENCY two_slot_config \<and>
   step \<lparr>sem_value = 0, tasks = [Fetching, Fetching, Waiting]\<rparr> (Acquire 2) = None"
proof -
  let ?es = "[Dispatch 0, Dispatch 1, Dispatch 2, Wake 0, Wake 1, Wake 2, Acquire 0, Acquire 1]"
  let ?s = "\<lparr>sem_value = 0, tasks = [Fetching, Fetching, Waiting]\<rparr>"
  have a: "ScraperService_init two_slot_config = Returns 2"
    by (simp add: ScraperService_init_def two_slot_config_def default_config_def)
  have b: "run (start 2 3) ?es = Some ?s"
    by (simp add: start_def at_state_def set_task_def numeral_3_eq_3)
  have d: "step ?s (Acquire 2) = None"
    by (simp add: at_state_def)
  from concurrency_bound [of two_slot_config 2 3 ?es ?s, THEN conjunct1] a b
  have "int (in_flight ?s) \<le> CONCURRENCY two_slot_config" by blast
  with a b d show ?thesis by (intro conjI)
qed

section \<open>Verification: the order of the results\<close>

text \<open>
  Invariants of a run: the number of tasks; the slots, free or held by a task inside
  the block; every entry in place belongs to the URL of its task; without a
  cancellation, no entry is a \<^verbatim>\<open>CancelledError\<close>.
\<close>

lemma task_entry_for: "entry_for (task_entry (fst (worker cfg lib c url))) url"
proof (cases "fst (worker cfg lib c url)")
  case (Raises e)
  then show ?thesis by (simp add: task_entry_def entry_for_def)
next
  case (Returns it)
  with worker_item [of cfg lib c url it] show ?thesis by (simp add: task_entry_def entry_for_def)
qed

lemma task_entry_not_cancelled: "task_entry r \<noteq> CancelledError"
  by (cases r) (simp_all add: task_entry_def)

lemma advance_length:
  "advance cfg lib urls s m = Some s' \<Longrightarrow> length (phases s') = length (phases s)"
  by (cases m) (auto simp: set_phase_def split: if_splits prod.splits phase.splits)

lemma advance_slots:
  assumes "advance cfg lib urls s m = Some s'"
  shows "free_slots s' + in_block s' = free_slots s + in_block s"
proof -
  note F = filter_update_length [of _ "phases s" "\<lambda>p. p = InBlock"]
  show ?thesis
  proof (cases m)
    case (Begin i)
    with assms F [of i Sleeping] show ?thesis
      by (auto simp: in_block_def set_phase_def in_phase_def split: if_splits)
  next
    case (Resume i)
    with assms F [of i AtSemaphore] show ?thesis
      by (auto simp: in_block_def set_phase_def in_phase_def split: if_splits)
  next
    case (Obtain i)
    with assms F [of i InBlock] show ?thesis
      by (auto simp: in_block_def set_phase_def in_phase_def split: if_splits)
  next
    case (Complete i)
    with assms F [of i "Finished (task_entry (fst (worker cfg lib (http s) (urls ! i))))"] show ?thesis
      by (auto simp: in_block_def set_phase_def in_phase_def split: if_splits prod.splits)
  next
    case (Cancel i)
    with assms F [of i "Finished CancelledError"] show ?thesis
      by (auto simp: in_block_def set_phase_def split: if_splits phase.splits)
  qed
qed

lemma advance_placed:
  assumes "advance cfg lib urls s m = Some s'" "placed urls s"
  shows "placed urls s'"
proof -
  have upd: "placed urls (set_phase s i p)"
    if h: "\<And>r. p = Finished r \<Longrightarrow> entry_for r (urls ! i)" for i p
  proof -
    have "entry_for r (urls ! j)"
      if "j < length (phases s)" "(phases s)[i := p] ! j = Finished r" for j r
    proof (cases "j = i")
      case True
      with that h show ?thesis by simp
    next
      case False
      with that assms(2) show ?thesis by (simp add: placed_def)
    qed
    then show ?thesis by (simp add: placed_def set_phase_def)
  qed
  have ext: "placed urls (t\<lparr>free_slots := a\<rparr>) = placed urls t"
    "placed urls (t\<lparr>free_slots := a, http := b\<rparr>) = placed urls t" for t a b
    by (simp_all add: placed_def)
  show ?thesis
  proof (cases m)
    case (Begin i)
    with assms(1) upd [of Sleeping i] show ?thesis by (auto split: if_splits)
  next
    case (Resume i)
    with assms(1) upd [of AtSemaphore i] show ?thesis by (auto split: if_splits)
  next
    case (Obtain i)
    with assms(1) upd [of InBlock i] show ?thesis by (auto simp: ext split: if_splits)
  next
    case (Complete i)
    obtain r c' where w: "worker cfg lib (http s) (urls ! i) = (r, c')"
      by (cases "worker cfg lib (http s) (urls ! i)")
    have "entry_for (task_entry r) (urls ! i)"
      using task_entry_for [of cfg lib "http s" "urls ! i"] w by simp
    with Complete assms(1) w upd [of "Finished (task_entry r)" i] show ?thesis
      by (auto simp: ext split: if_splits)
  next
    case (Cancel i)
    have "entry_for CancelledError (urls ! i)" by (simp add: entry_for_def)
    with Cancel assms(1) upd [of "Finished CancelledError" i] show ?thesis
      by (auto simp: ext split: if_splits phase.splits)
  qed
qed

lemma advance_uncancelled:
  assumes "advance cfg lib urls s m = Some s'" "uncancelled s" "no_cancel [m]"
  shows "uncancelled s'"
proof -
  have upd: "uncancelled (set_phase s i p)" if "p \<noteq> Finished CancelledError" for i p
    using assms(2) that by (auto simp: uncancelled_def set_phase_def dest: set_update_subset_insert [THEN subsetD])
  have ext: "uncancelled (t\<lparr>free_slots := a\<rparr>) = uncancelled t"
    "uncancelled (t\<lparr>free_slots := a, http := b\<rparr>) = uncancelled t" for t a b
    by (simp_all add: uncancelled_def)
  show ?thesis
  proof (cases m)
    case (Begin i)
    with assms(1) upd [of Sleeping i] show ?thesis by (auto split: if_splits)
  next
    case (Resume i)
    with assms(1) upd [of AtSemaphore i] show ?thesis by (auto split: if_splits)
  next
    case (Obtain i)
    with assms(1) upd [of InBlock i] show ?thesis by (auto simp: ext split: if_splits)
  next
    case (Complete i)
    obtain r c' where w: "worker cfg lib (http s) (urls ! i) = (r, c')"
      by (cases "worker cfg lib (http s) (urls ! i)")
    with Complete assms(1) upd [of "Finished (task_entry r)" i] task_entry_not_cancelled [of r]
    show ?thesis by (auto simp: ext split: if_splits)
  next
    case (Cancel i)
    with assms(3) show ?thesis by (simp add: no_cancel_def)
  qed
qed

lemma exec_invariants:
  "exec cfg lib urls s sched = Some s' \<Longrightarrow>
   length (phases s') = length (phases s) \<and>
   free_slots s' + in_block s' = free_slots s + in_block s \<and>
   (placed urls s \<longrightarrow> placed urls s') \<and>
   (uncancelled s \<and> no_cancel sched \<longrightarrow> uncancelled s')"
proof (induction sched arbitrary: s)
  case Nil
  then show ?case by simp
next
  case (Cons m ms)
  then obtain s1 where a: "advance cfg lib urls s m = Some s1" and e: "exec cfg lib urls s1 ms = Some s'"
    by (auto split: option.splits)
  have n: "no_cancel (m # ms) \<longleftrightarrow> no_cancel [m] \<and> no_cancel ms"
    by (simp add: no_cancel_def)
  from Cons.IH [OF e] advance_length [OF a] advance_slots [OF a] advance_placed [OF a]
    advance_uncancelled [OF a]
  show ?case unfolding n by auto
qed

text \<open>
  The result loop keeps the positions: the entry it appends for a task is a record
  with the URL of that task, or the \<^verbatim>\<open>CancelledError\<close> of a cancelled task. Within the
  bound on the URL it does not raise.
\<close>

lemma build_items_positions:
  assumes "list_all2 entry_for rs urls" "build_items (zip rs urls) acc = Returns items"
  shows "\<exists>new. items = acc @ new \<and> length new = length urls \<and>
           (\<forall>i < length urls. (\<exists>it. new ! i = Item it \<and> source_url it = urls ! i) \<or>
              (new ! i = CancelledError \<and> rs ! i = CancelledError))"
  using assms
proof (induction rs urls arbitrary: acc rule: list_all2_induct)
  case Nil
  then show ?case by simp
next
  case (Cons r rs u us)
  have step: "\<exists>new. items = acc @ new \<and> length new = length (u # us) \<and>
           (\<forall>i < length (u # us). (\<exists>it. new ! i = Item it \<and> source_url it = (u # us) ! i) \<or>
              (new ! i = CancelledError \<and> (r # rs) ! i = CancelledError))"
    if rest: "build_items (zip rs us) (acc @ [x]) = Returns items"
      and x: "(\<exists>it. x = Item it \<and> source_url it = u) \<or> (x = CancelledError \<and> r = CancelledError)"
    for x
  proof -
    from Cons.IH [OF rest] obtain new where
      n: "items = (acc @ [x]) @ new" "length new = length us"
      "\<forall>i < length us. (\<exists>it. new ! i = Item it \<and> source_url it = us ! i) \<or>
              (new ! i = CancelledError \<and> rs ! i = CancelledError)"
      by blast
    have "\<forall>i < length (u # us). (\<exists>it. (x # new) ! i = Item it \<and> source_url it = (u # us) ! i) \<or>
              ((x # new) ! i = CancelledError \<and> (r # rs) ! i = CancelledError)"
    proof (intro allI impI)
      fix i assume "i < length (u # us)"
      then show "(\<exists>it. (x # new) ! i = Item it \<and> source_url it = (u # us) ! i) \<or>
              ((x # new) ! i = CancelledError \<and> (r # rs) ! i = CancelledError)"
        using x n(3) by (cases i) auto
    qed
    with n(1,2) show ?thesis by (intro exI [of _ "x # new"]) simp
  qed
  show ?case
  proof (cases r)
    case (Item it)
    with Cons.prems have "build_items (zip rs us) (acc @ [Item it]) = Returns items" by simp
    moreover from Cons.hyps(1) Item have "source_url it = u" by (simp add: entry_for_def)
    ultimately show ?thesis using step [of "Item it"] by blast
  next
    case (Failure e)
    let ?msg = "Some (''internal error: '' @ cls_name e @ '': '' @ message e)"
    from Cons.prems Failure obtain it where
      it: "ScrapeItem_new u Error None ?msg = Returns it"
      and rest: "build_items (zip rs us) (acc @ [Item it]) = Returns items"
      by (auto split: outcome.splits)
    from it have "source_url it = u" by (auto simp: ScrapeItem_new_Returns)
    with rest show ?thesis using step [of "Item it"] by blast
  next
    case CancelledError
    with Cons.prems have "build_items (zip rs us) (acc @ [CancelledError]) = Returns items" by simp
    with CancelledError show ?thesis using step [of CancelledError] by blast
  qed
qed

lemma build_items_total:
  assumes "length rs = length urls" "\<forall>u \<in> set urls. length u \<le> 2000"
  shows "\<exists>items. build_items (zip rs urls) acc = Returns items"
  using assms
proof (induction rs urls arbitrary: acc rule: list_induct2)
  case Nil
  then show ?case by simp
next
  case (Cons r rs u us)
  then show ?case by (cases r) (simp_all add: ScrapeItem_new_def)
qed

lemma gather_results_Some:
  assumes "gather_results s = Some rs"
  shows "length rs = length (phases s)" and "\<forall>i < length rs. phases s ! i = Finished (rs ! i)"
proof -
  from assms have a: "list_all (\<lambda>p. entry_of p \<noteq> None) (phases s)"
    and r: "rs = map (\<lambda>p. the (entry_of p)) (phases s)"
    by (auto simp: gather_results_def split: if_splits)
  show "length rs = length (phases s)" using r by simp
  show "\<forall>i < length rs. phases s ! i = Finished (rs ! i)"
  proof (intro allI impI)
    fix i assume i: "i < length rs"
    then have "entry_of (phases s ! i) \<noteq> None"
      using a r by (simp add: list_all_length)
    then show "phases s ! i = Finished (rs ! i)"
      using i r by (cases "phases s ! i") simp_all
  qed
qed

lemma created_invariants:
  "length (phases (created n c urls)) = length urls" "in_block (created n c urls) = 0"
  "free_slots (created n c urls) = n" "placed urls (created n c urls)"
  "uncancelled (created n c urls)"
  by (auto simp: created_def in_block_def placed_def uncancelled_def)

lemma run_positions:
  assumes e: "exec cfg lib urls (created n c urls) sched = Some s" and g: "gather_results s = Some rs"
  shows "list_all2 entry_for rs urls"
    and "no_cancel sched \<Longrightarrow> CancelledError \<notin> set rs"
proof -
  note I = exec_invariants [OF e]
  note G = gather_results_Some [OF g]
  have l: "length rs = length urls" using I G(1) by (simp add: created_invariants)
  have p: "placed urls s" using I by (simp add: created_invariants)
  show "list_all2 entry_for rs urls"
    unfolding list_all2_conv_all_nth
    using l p G by (auto simp: placed_def)
  show "CancelledError \<notin> set rs" if "no_cancel sched"
  proof
    assume "CancelledError \<in> set rs"
    then obtain i where i: "i < length rs" "rs ! i = CancelledError" by (auto simp: in_set_conv_nth)
    with G have "phases s ! i = Finished CancelledError" "i < length (phases s)" by auto
    then have "Finished CancelledError \<in> set (phases s)" by (metis nth_mem)
    moreover have "uncancelled s" using I that by (simp add: created_invariants)
    ultimately show False by (simp add: uncancelled_def)
  qed
qed

text \<open>
  With a slot, a run in which no task can go on is over: every task has finished and
  \<^verbatim>\<open>gather\<close> returns.
\<close>

lemma all_finished:
  assumes e: "exec cfg lib urls (created n c urls) sched = Some s"
    and n: "n \<ge> 1 \<or> urls = []" and stuck: "\<not> can_advance s"
  shows "\<exists>rs. gather_results s = Some rs"
proof -
  note I = exec_invariants [OF e]
  have s: "free_slots s + in_block s = n" using I by (simp add: created_invariants)
  have q: "\<forall>p \<in> set (phases s). p \<noteq> Created \<and> p \<noteq> Sleeping \<and> p \<noteq> InBlock \<and>
      (p = AtSemaphore \<longrightarrow> free_slots s = 0)"
    using stuck by (auto simp: can_advance_def list_ex_iff)
  then have "filter (\<lambda>p. p = InBlock) (phases s) = []" by (auto simp: filter_empty_conv)
  then have f: "free_slots s = n" using s by (simp add: in_block_def)
  have "entry_of p \<noteq> None" if "p \<in> set (phases s)" for p
  proof (cases p)
    case AtSemaphore
    with q that have "free_slots s = 0" by blast
    with f n have "urls = []" by simp
    with I that show ?thesis by (simp add: created_invariants)
  qed (use q that in auto)
  then show ?thesis by (simp add: gather_results_def list_all_iff)
qed

text \<open>
  Without a slot no task ever enters the block, and the call does not return.
\<close>

lemma never_without_slot:
  assumes "exec cfg lib urls s sched = Some s'" "no_cancel sched" "free_slots s = 0"
    "\<forall>p \<in> set (phases s). p = Created \<or> p = Sleeping \<or> p = AtSemaphore"
  shows "free_slots s' = 0 \<and> (\<forall>p \<in> set (phases s'). p = Created \<or> p = Sleeping \<or> p = AtSemaphore)"
  using assms
proof (induction sched arbitrary: s)
  case Nil
  then show ?case by simp
next
  case (Cons m ms)
  then obtain s1 where a: "advance cfg lib urls s m = Some s1" and e: "exec cfg lib urls s1 ms = Some s'"
    by (auto split: option.splits)
  from Cons.prems(2) have n: "no_cancel [m]" "no_cancel ms" by (simp_all add: no_cancel_def)
  have s1: "free_slots s1 = 0 \<and> (\<forall>p \<in> set (phases s1). p = Created \<or> p = Sleeping \<or> p = AtSemaphore)"
  proof (cases m)
    case (Begin i)
    with a Cons.prems(3,4) show ?thesis
      by (auto simp: set_phase_def in_phase_def split: if_splits dest!: set_update_subset_insert [THEN subsetD])
  next
    case (Resume i)
    with a Cons.prems(3,4) show ?thesis
      by (auto simp: set_phase_def in_phase_def split: if_splits dest!: set_update_subset_insert [THEN subsetD])
  next
    case (Obtain i)
    with a Cons.prems(3) show ?thesis by (auto split: if_splits)
  next
    case (Complete i)
    show ?thesis
    proof (cases "in_phase s i InBlock")
      case True
      then have "InBlock \<in> set (phases s)" by (auto simp: in_phase_def dest: nth_mem)
      with Cons.prems(4) have "InBlock = Created \<or> InBlock = Sleeping \<or> InBlock = AtSemaphore"
        by (rule bspec)
      then have False by simp
      then show ?thesis ..
    next
      case False
      have "advance cfg lib urls s m = None" unfolding Complete using False by simp
      with a show ?thesis by simp
    qed
  next
    case (Cancel i)
    with n show ?thesis by (simp add: no_cancel_def)
  qed
  show ?case by (rule Cons.IH [OF e n(2) s1 [THEN conjunct1] s1 [THEN conjunct2]])
qed

lemma zero_slots_never_returns:
  assumes "no_cancel sched" "urls \<noteq> []"
  shows "scrape_urls_run cfg lib c 0 sched urls = None"
proof (cases "exec cfg lib urls (created 0 c urls) sched")
  case None
  then show ?thesis by (simp add: scrape_urls_run_def)
next
  case (Some s)
  have "\<forall>p \<in> set (phases (created 0 c urls)). p = Created \<or> p = Sleeping \<or> p = AtSemaphore"
    by (simp add: created_def)
  from never_without_slot [OF Some assms(1) _ this]
  have p: "\<forall>p \<in> set (phases s). p = Created \<or> p = Sleeping \<or> p = AtSemaphore"
    by (simp add: created_def)
  have "length (phases s) = length urls"
    using exec_invariants [OF Some] by (simp add: created_invariants)
  with assms(2) obtain q where "q \<in> set (phases s)" by (cases "phases s") auto
  with p have "q = Created \<or> q = Sleeping \<or> q = AtSemaphore" by blast
  then have "entry_of q = None" by (elim disjE) simp_all
  with \<open>q \<in> set (phases s)\<close> have "\<not> list_all (\<lambda>p. entry_of p \<noteq> None) (phases s)"
    unfolding list_all_iff by blast
  then have "gather_results s = None" by (simp add: gather_results_def)
  with Some show ?thesis by (simp add: scrape_urls_run_def)
qed

text \<open>A state can advance exactly when a move other than a cancellation is possible.\<close>

lemma can_advance_move:
  "can_advance s \<longleftrightarrow> (\<exists>m. no_cancel [m] \<and> advance cfg lib urls s m \<noteq> None)"
proof
  assume "can_advance s"
  then obtain p where p: "p \<in> set (phases s)"
    and q: "case p of Created \<Rightarrow> True | Sleeping \<Rightarrow> True | AtSemaphore \<Rightarrow> free_slots s > 0
                | InBlock \<Rightarrow> True | Finished r \<Rightarrow> False"
    by (auto simp: can_advance_def list_ex_iff)
  from p obtain i where i: "i < length (phases s)" "phases s ! i = p" by (auto simp: in_set_conv_nth)
  show "\<exists>m. no_cancel [m] \<and> advance cfg lib urls s m \<noteq> None"
  proof (cases p)
    case Created
    with i have "no_cancel [Begin i] \<and> advance cfg lib urls s (Begin i) \<noteq> None"
      by (simp add: no_cancel_def in_phase_def)
    then show ?thesis ..
  next
    case Sleeping
    with i have "no_cancel [Resume i] \<and> advance cfg lib urls s (Resume i) \<noteq> None"
      by (simp add: no_cancel_def in_phase_def)
    then show ?thesis ..
  next
    case AtSemaphore
    with i q have "no_cancel [Obtain i] \<and> advance cfg lib urls s (Obtain i) \<noteq> None"
      by (simp add: no_cancel_def in_phase_def)
    then show ?thesis ..
  next
    case InBlock
    with i have "no_cancel [Complete i] \<and> advance cfg lib urls s (Complete i) \<noteq> None"
      by (simp add: no_cancel_def in_phase_def split: prod.splits)
    then show ?thesis ..
  next
    case (Finished r)
    with q show ?thesis by simp
  qed
next
  assume "\<exists>m. no_cancel [m] \<and> advance cfg lib urls s m \<noteq> None"
  then obtain m where m: "no_cancel [m]" "advance cfg lib urls s m \<noteq> None" by (elim exE conjE)
  have r: "can_advance s"
    if "i < length (phases s)" "phases s ! i = p"
      "p = Created \<or> p = Sleeping \<or> p = InBlock \<or> (p = AtSemaphore \<and> free_slots s > 0)" for i p
  proof -
    from that(1,2) have "p \<in> set (phases s)" by (metis nth_mem)
    moreover from that(3) have "case p of Created \<Rightarrow> True | Sleeping \<Rightarrow> True
        | AtSemaphore \<Rightarrow> free_slots s > 0 | InBlock \<Rightarrow> True | Finished r \<Rightarrow> False"
      by (elim disjE conjE) simp_all
    ultimately show ?thesis unfolding can_advance_def list_ex_iff by (rule bexI [rotated])
  qed
  show "can_advance s"
  proof (cases m)
    case (Begin i)
    with m(2) have "in_phase s i Created" by (simp split: if_splits)
    then show ?thesis using r [of i Created] by (simp add: in_phase_def)
  next
    case (Resume i)
    with m(2) have "in_phase s i Sleeping" by (simp split: if_splits)
    then show ?thesis using r [of i Sleeping] by (simp add: in_phase_def)
  next
    case (Obtain i)
    with m(2) have "in_phase s i AtSemaphore \<and> free_slots s > 0" by (simp split: if_splits)
    then show ?thesis using r [of i AtSemaphore] by (simp add: in_phase_def)
  next
    case (Complete i)
    with m(2) have "in_phase s i InBlock" by (simp split: if_splits)
    then show ?thesis using r [of i InBlock] by (simp add: in_phase_def)
  next
    case (Cancel i)
    with m(1) show ?thesis by (simp add: no_cancel_def)
  qed
qed

lemma sum_list_update_nat:
  "i < length xs \<Longrightarrow> sum_list (map f (xs[i := y])) + f (xs ! i) = sum_list (map f xs) + (f y :: nat)"
proof (induction xs arbitrary: i)
  case Nil
  then show ?case by simp
next
  case (Cons x xs)
  then show ?case by (cases i) auto
qed

lemma advance_moves_left:
  assumes "advance cfg lib urls s m = Some s'"
  shows "moves_left s' < moves_left s"
proof -
  have u: "moves_left (set_phase s i q) < moves_left s"
    if "i < length (phases s)" "remaining q < remaining (phases s ! i)" for i q
    using sum_list_update_nat [OF that(1), of remaining q] that(2)
    by (simp add: moves_left_def set_phase_def)
  have k: "moves_left (t\<lparr>free_slots := a\<rparr>) = moves_left t"
    "moves_left (t\<lparr>free_slots := a, http := b\<rparr>) = moves_left t" for t a b
    by (simp_all add: moves_left_def)
  show ?thesis
  proof (cases m)
    case (Begin i)
    with assms have "in_phase s i Created" "s' = set_phase s i Sleeping" by (auto split: if_splits)
    then show ?thesis using u [of i Sleeping] by (simp add: in_phase_def)
  next
    case (Resume i)
    with assms have "in_phase s i Sleeping" "s' = set_phase s i AtSemaphore" by (auto split: if_splits)
    then show ?thesis using u [of i AtSemaphore] by (simp add: in_phase_def)
  next
    case (Obtain i)
    with assms have "in_phase s i AtSemaphore"
      "s' = (set_phase s i InBlock)\<lparr>free_slots := free_slots s - 1\<rparr>" by (auto split: if_splits)
    then show ?thesis using u [of i InBlock] by (simp add: in_phase_def k)
  next
    case (Complete i)
    with assms obtain r c' where "in_phase s i InBlock"
      "s' = (set_phase s i (Finished r))\<lparr>free_slots := free_slots s + 1, http := c'\<rparr>"
      by (auto split: if_splits prod.splits)
    then show ?thesis using u [of i "Finished r"] by (simp add: in_phase_def k)
  next
    case (Cancel i)
    with assms have i: "i < length (phases s)" by (simp split: if_splits)
    show ?thesis
    proof (cases "phases s ! i")
      case (Finished r)
      with assms Cancel i show ?thesis by simp
    next
      case InBlock
      with assms Cancel i
      have "s' = (set_phase s i (Finished CancelledError))\<lparr>free_slots := free_slots s + 1\<rparr>"
        by simp
      then show ?thesis using u [of i "Finished CancelledError"] i InBlock by (simp add: k)
    qed (use assms Cancel i u [of i "Finished CancelledError"] in simp_all)
  qed
qed

text \<open>
  No run goes on for ever: a task makes at most four moves, so a schedule has at most
  four moves per URL.
\<close>

lemma exec_moves_left:
  "exec cfg lib urls s sched = Some s' \<Longrightarrow> length sched + moves_left s' \<le> moves_left s"
proof (induction sched arbitrary: s)
  case Nil
  then show ?case by simp
next
  case (Cons m ms)
  then obtain s1 where a: "advance cfg lib urls s m = Some s1" and e: "exec cfg lib urls s1 ms = Some s'"
    by (auto split: option.splits)
  from Cons.IH [OF e] advance_moves_left [OF a] show ?case by simp
qed

lemma exec_bounded:
  assumes "exec cfg lib urls (created n c urls) sched = Some s"
  shows "length sched \<le> 4 * length urls"
proof -
  have "moves_left (created n c urls) = 4 * length urls"
    by (simp add: moves_left_def created_def sum_list_replicate)
  with exec_moves_left [OF assms] show ?thesis by simp
qed

text \<open>
  The run that takes the tasks one after the other is a run of the program whenever
  there is a slot, and its value is \<open>scrape_urls\<close>.
\<close>

lemma exec_append:
  "exec cfg lib urls s (xs @ ys)
     = (case exec cfg lib urls s xs of None \<Rightarrow> None | Some s' \<Rightarrow> exec cfg lib urls s' ys)"
  by (induction xs arbitrary: s) (simp_all split: option.splits)

lemma exec_one_task:
  assumes "n \<ge> 1" "length ps = length pre"
  shows "exec cfg lib (pre @ u # us)
           \<lparr>free_slots = n, phases = ps @ Created # rest, http = c\<rparr>
           [Begin (length ps), Resume (length ps), Obtain (length ps), Complete (length ps)]
         = Some \<lparr>free_slots = n,
              phases = ps @ Finished (task_entry (fst (worker cfg lib c u))) # rest,
              http = snd (worker cfg lib c u)\<rparr>"
proof -
  have u: "(pre @ u # us) ! length ps = u" using assms(2) by (simp add: nth_append)
  from assms(1) obtain k where k: "n = Suc k" by (cases n) auto
  show ?thesis
    by (cases "worker cfg lib c u")
       (simp add: in_phase_def set_phase_def u k)
qed

lemma exec_tasks_in_order:
  assumes "n \<ge> 1" "length ps = length pre"
  shows "exec cfg lib (pre @ us)
           \<lparr>free_slots = n, phases = ps @ replicate (length us) Created, http = c\<rparr>
           (concat (map (\<lambda>i. [Begin i, Resume i, Obtain i, Complete i])
              [length ps ..< length ps + length us]))
         = Some \<lparr>free_slots = n,
              phases = ps @ map (\<lambda>r. Finished (task_entry r)) (fst (gather cfg lib c us)),
              http = snd (gather cfg lib c us)\<rparr>"
  using assms(2)
proof (induction us arbitrary: ps pre c)
  case Nil
  then show ?case by simp
next
  case (Cons u us)
  let ?k = "length ps"
  let ?r = "fst (worker cfg lib c u)"
  let ?c = "snd (worker cfg lib c u)"
  have i: "[?k ..< ?k + length (u # us)] = ?k # [Suc ?k ..< Suc ?k + length us]"
    using upt_conv_Cons [of ?k "?k + length (u # us)"] by simp
  have one: "exec cfg lib (pre @ u # us)
           \<lparr>free_slots = n, phases = ps @ Created # replicate (length us) Created, http = c\<rparr>
           [Begin ?k, Resume ?k, Obtain ?k, Complete ?k]
         = Some \<lparr>free_slots = n, phases = ps @ Finished (task_entry ?r) # replicate (length us) Created,
              http = ?c\<rparr>"
    by (rule exec_one_task [OF assms(1) Cons.prems])
  have l: "length (ps @ [Finished (task_entry ?r)]) = length (pre @ [u])"
    using Cons.prems by simp
  from Cons.IH [OF l, of ?c]
  have rest: "exec cfg lib (pre @ u # us)
           \<lparr>free_slots = n, phases = ps @ Finished (task_entry ?r) # replicate (length us) Created,
              http = ?c\<rparr>
           (concat (map (\<lambda>i. [Begin i, Resume i, Obtain i, Complete i]) [Suc ?k ..< Suc ?k + length us]))
         = Some \<lparr>free_slots = n,
              phases = ps @ Finished (task_entry ?r) #
                 map (\<lambda>r. Finished (task_entry r)) (fst (gather cfg lib ?c us)),
              http = snd (gather cfg lib ?c us)\<rparr>"
    by simp
  have g: "fst (gather cfg lib c (u # us)) = ?r # fst (gather cfg lib ?c us)"
    "snd (gather cfg lib c (u # us)) = snd (gather cfg lib ?c us)"
    by (simp_all split: prod.splits)
  have "exec cfg lib (pre @ u # us)
           \<lparr>free_slots = n, phases = ps @ replicate (length (u # us)) Created, http = c\<rparr>
           ([Begin ?k, Resume ?k, Obtain ?k, Complete ?k] @
            concat (map (\<lambda>i. [Begin i, Resume i, Obtain i, Complete i]) [Suc ?k ..< Suc ?k + length us]))
         = Some \<lparr>free_slots = n,
              phases = ps @ map (\<lambda>r. Finished (task_entry r)) (fst (gather cfg lib c (u # us))),
              http = snd (gather cfg lib c (u # us))\<rparr>"
    unfolding exec_append g using one rest by simp
  then show ?case unfolding i by simp
qed

lemma build_items_collect:
  "build_items (zip (map task_entry rs) urls) (map Item acc)
     = (case collect_items (zip rs urls) acc of
          Raises e \<Rightarrow> Raises e | Returns items \<Rightarrow> Returns (map Item items))"
proof (induction rs arbitrary: urls acc)
  case Nil
  show ?case by simp
next
  case (Cons r rs)
  show ?case
  proof (cases urls)
    case Nil
    then show ?thesis by simp
  next
    case u: (Cons u us)
    show ?thesis
    proof (cases r)
      case r: (Raises e)
      show ?thesis
      proof (cases "ScrapeItem_new u Error None
             (Some (''internal error: '' @ cls_name e @ '': '' @ message e))")
        case (Raises e')
        then show ?thesis by (simp add: u r task_entry_def)
      next
        case (Returns it)
        with Cons.IH [of us "acc @ [it]"] show ?thesis by (simp add: u r task_entry_def)
      qed
    next
      case r: (Returns it)
      from Cons.IH [of us "acc @ [it]"] show ?thesis by (simp add: u r task_entry_def)
    qed
  qed
qed

lemma scrape_urls_in_order:
  assumes "n \<ge> 1"
  shows "scrape_urls_run cfg lib c n (in_order (length urls)) urls
     = Some (case scrape_urls cfg lib c urls of
               Raises e \<Rightarrow> Raises e | Returns items \<Rightarrow> Returns (map Item items))"
proof -
  let ?rs = "fst (gather cfg lib c urls)"
  let ?s = "\<lparr>free_slots = n, phases = map (\<lambda>r. Finished (task_entry r)) ?rs,
       http = snd (gather cfg lib c urls)\<rparr>"
  from exec_tasks_in_order [OF assms, of "[]" "[]" cfg lib urls c]
  have e: "exec cfg lib urls (created n c urls) (in_order (length urls)) = Some ?s"
    by (simp add: created_def in_order_def)
  have g: "gather_results ?s = Some (map task_entry ?rs)"
    by (simp add: gather_results_def list_all_iff comp_def)
  have "scrape_urls_run cfg lib c n (in_order (length urls)) urls
      = Some (build_items (zip (map task_entry ?rs) urls) (map Item []))"
    by (simp add: scrape_urls_run_def e g)
  also have "\<dots> = Some (case collect_items (zip ?rs urls) [] of
               Raises e \<Rightarrow> Raises e | Returns items \<Rightarrow> Returns (map Item items))"
    by (simp only: build_items_collect)
  finally show ?thesis by (simp add: scrape_urls_def split: prod.splits)
qed

lemma in_order_no_cancel: "no_cancel (in_order k)"
  by (auto simp: no_cancel_def in_order_def list_all_iff)

lemma in_order_completes:
  assumes "n \<ge> 1"
  shows "\<exists>s. exec cfg lib urls (created n c urls) (in_order (length urls)) = Some s \<and> \<not> can_advance s"
proof -
  let ?s = "\<lparr>free_slots = n, phases = map (\<lambda>r. Finished (task_entry r)) (fst (gather cfg lib c urls)),
       http = snd (gather cfg lib c urls)\<rparr>"
  from exec_tasks_in_order [OF assms, of "[]" "[]" cfg lib urls c]
  have "exec cfg lib urls (created n c urls) (in_order (length urls)) = Some ?s"
    by (simp add: created_def in_order_def)
  moreover have "\<not> can_advance ?s" by (auto simp: can_advance_def list_ex_iff)
  ultimately show ?thesis by (intro exI conjI)
qed

lemma worker_page:
  "handler c = net_html \<Longrightarrow>
   worker cfg lib_primary c url
     = (ScrapeItem_new url Success (Some ''hello'') None, c\<lparr>requests := requests c @ [url]\<rparr>)"
  by (simp add: worker_def fetch_html_def client_get_def net_html_def str_lower_def
        char_lower_def code_point_def char_of_eq_iff startswith_def extract_lib_primary)

text \<open>
  Claim C1 (amended). For a semaphore with at least one slot (\<^verbatim>\<open>Config.CONCURRENCY\<close>
  at least 1; none is needed for the empty list), for every list of URLs of at most
  2000 characters each, the bound of \<^verbatim>\<open>ScrapeItem.source_url\<close>, and for every order in
  which the event loop takes the tasks to their end with no task cancelled,
  \<^verbatim>\<open>scrape_urls\<close> returns a list of records of the length of the input, and the
  \<open>i\<close>-th record carries the \<open>i\<close>-th URL: the order of the result is that of the
  input, whichever task finishes first.
\<close>

theorem scrape_urls_order:
  assumes "ScraperService_init cfg = Returns n" and "n \<ge> 1 \<or> urls = []"
    and "\<forall>u \<in> set urls. length u \<le> 2000"
    and "exec cfg lib urls (created n c urls) sched = Some s"
    and "no_cancel sched" and "\<not> can_advance s"
  shows "\<exists>items. scrape_urls_run cfg lib c n sched urls = Some (Returns items) \<and>
           length items = length urls \<and>
           (\<forall>i < length urls. \<exists>it. items ! i = Item it \<and> source_url it = urls ! i)"
proof -
  from all_finished [OF assms(4,2,6)] obtain rs where g: "gather_results s = Some rs" ..
  note P = run_positions [OF assms(4) g]
  have l: "length rs = length urls" using P(1) by (rule list_all2_lengthD)
  from build_items_total [OF l assms(3)] obtain items where
    b: "build_items (zip rs urls) [] = Returns items" ..
  from build_items_positions [OF P(1) b] obtain new where
    n: "items = [] @ new" "length new = length urls"
    "\<forall>i < length urls. (\<exists>it. new ! i = Item it \<and> source_url it = urls ! i) \<or>
              (new ! i = CancelledError \<and> rs ! i = CancelledError)"
    by (elim exE conjE)
  have r: "scrape_urls_run cfg lib c n sched urls = Some (Returns items)"
    using assms(4) g b by (simp add: scrape_urls_run_def)
  have "\<forall>i < length urls. \<exists>it. items ! i = Item it \<and> source_url it = urls ! i"
  proof (intro allI impI)
    fix i assume i: "i < length urls"
    have "rs ! i \<noteq> CancelledError"
      using P(2) [OF assms(5)] i l by (metis nth_mem)
    with n(3) i have "\<exists>it. new ! i = Item it \<and> source_url it = urls ! i" by blast
    then show "\<exists>it. items ! i = Item it \<and> source_url it = urls ! i" using n(1) by simp
  qed
  with r n(1,2) show ?thesis by simp
qed

theorem scrape_urls_order_witness:
  "ScraperService_init one_slot_config = Returns 1 \<and>
   no_cancel [Begin 0, Begin 1, Resume 1, Resume 0, Obtain 1, Complete 1, Obtain 0, Complete 0] \<and>
   exec one_slot_config lib_primary [''http://x.com/a'', ''http://y.org/b'']
       (created 1 (new_client net_html) [''http://x.com/a'', ''http://y.org/b''])
       [Begin 0, Begin 1, Resume 1, Resume 0, Obtain 1, Complete 1, Obtain 0, Complete 0]
     = Some \<lparr>free_slots = 1,
         phases = [Finished (Item \<lparr>source_url = ''http://x.com/a'', status = Success,
                      scraped_text = Some ''hello'', error_message = None\<rparr>),
                   Finished (Item \<lparr>source_url = ''http://y.org/b'', status = Success,
                      scraped_text = Some ''hello'', error_message = None\<rparr>)],
         http = \<lparr>handler = net_html, requests = [''http://y.org/b'', ''http://x.com/a'']\<rparr>\<rparr> \<and>
   (\<exists>items. scrape_urls_run one_slot_config lib_primary (new_client net_html) 1
        [Begin 0, Begin 1, Resume 1, Resume 0, Obtain 1, Complete 1, Obtain 0, Complete 0]
        [''http://x.com/a'', ''http://y.org/b''] = Some (Returns items) \<and>
      length items = 2 \<and>
      (\<exists>it. items ! 0 = Item it \<and> source_url it = ''http://x.com/a'') \<and>
      (\<exists>it. items ! 1 = Item it \<and> source_url it = ''http://y.org/b''))"
proof -
  let ?urls = "[''http://x.com/a'', ''http://y.org/b'']"
  let ?sched = "[Begin 0, Begin 1, Resume 1, Resume 0, Obtain 1, Complete 1, Obtain 0, Complete 0]"
  let ?s = "\<lparr>free_slots = 1,
         phases = [Finished (Item \<lparr>source_url = ''http://x.com/a'', status = Success,
                      scraped_text = Some ''hello'', error_message = None\<rparr>),
                   Finished (Item \<lparr>source_url = ''http://y.org/b'', status = Success,
                      scraped_text = Some ''hello'', error_message = None\<rparr>)],
         http = \<lparr>handler = net_html, requests = [''http://y.org/b'', ''http://x.com/a'']\<rparr>\<rparr>"
  have h1: "ScraperService_init one_slot_config = Returns 1"
    by (simp add: ScraperService_init_def one_slot_config_def default_config_def)
  have h2: "(1::nat) \<ge> 1 \<or> ?urls = []" by simp
  have h3: "\<forall>u \<in> set ?urls. length u \<le> 2000" by simp
  have h4: "exec one_slot_config lib_primary ?urls (created 1 (new_client net_html) ?urls) ?sched = Some ?s"
    by (simp add: created_def new_client_def in_phase_def set_phase_def worker_page
          ScrapeItem_new_def task_entry_def)
  have h5: "no_cancel ?sched" by (simp add: no_cancel_def)
  have h6: "\<not> can_advance ?s" by (simp add: can_advance_def)
  from scrape_urls_order [OF h1 h2 h3 h4 h5 h6]
  obtain items where r: "scrape_urls_run one_slot_config lib_primary (new_client net_html) 1 ?sched ?urls
        = Some (Returns items)"
    and l: "length items = length ?urls"
    and p: "\<forall>i < length ?urls. \<exists>it. items ! i = Item it \<and> source_url it = ?urls ! i"
    by (elim exE conjE)
  from p [rule_format, of 0]
  have p0: "\<exists>it. items ! 0 = Item it \<and> source_url it = ''http://x.com/a''" by simp
  from p [rule_format, of 1]
  have p1: "\<exists>it. items ! 1 = Item it \<and> source_url it = ''http://y.org/b''" by simp
  from l have l2: "length items = 2" by simp
  from r l2 p0 p1 have "\<exists>items. scrape_urls_run one_slot_config lib_primary (new_client net_html) 1
        ?sched ?urls = Some (Returns items) \<and> length items = 2 \<and>
      (\<exists>it. items ! 0 = Item it \<and> source_url it = ''http://x.com/a'') \<and>
      (\<exists>it. items ! 1 = Item it \<and> source_url it = ''http://y.org/b'')"
    by (intro exI [of _ items] conjI)
  with h1 h5 h4 show ?thesis by (intro conjI)
qed

text \<open>
  The claim as stated, for every list of URLs and every run, fails in three ways. For
  a URL of 2001 characters no record can be built, and the call raises. With
  \<^verbatim>\<open>Config.CONCURRENCY\<close> at 0 the semaphore has no slot: the task waits at
  \<^verbatim>\<open>async with self.sem\<close>, no move is possible, and the call does not return. A task
  cancelled during its delay leaves an \<^verbatim>\<open>asyncio.CancelledError\<close> in the list, which
  is no record.
\<close>

theorem scrape_urls_order_counterexample:
  "scrape_urls_run default_config lib_primary (new_client net_html) 6
       [Begin 0, Resume 0, Obtain 0, Complete 0] [long_url]
     = Some (Raises (PyExn ValidationError ''ValidationError'' ''source_url'')) \<and>
   ScraperService_init zero_slot_config = Returns 0 \<and>
   exec zero_slot_config lib_primary [''http://x.com/a''] (created 0 (new_client net_html) [''http://x.com/a''])
       [Begin 0, Resume 0]
     = Some \<lparr>free_slots = 0, phases = [AtSemaphore], http = new_client net_html\<rparr> \<and>
   \<not> can_advance \<lparr>free_slots = 0, phases = [AtSemaphore], http = new_client net_html\<rparr> \<and>
   scrape_urls_run zero_slot_config lib_primary (new_client net_html) 0 [Begin 0, Resume 0] [''http://x.com/a'']
     = None \<and>
   scrape_urls_run default_config lib_primary (new_client net_html) 6 [Begin 0, Cancel 0] [''http://x.com/a'']
     = Some (Returns [CancelledError])"
proof -
  have a: "scrape_urls_run default_config lib_primary (new_client net_html) 6
       [Begin 0, Resume 0, Obtain 0, Complete 0] [long_url]
     = Some (Raises (PyExn ValidationError ''ValidationError'' ''source_url''))"
    by (simp add: scrape_urls_run_def created_def new_client_def in_phase_def set_phase_def
          worker_page ScrapeItem_new_def task_entry_def gather_results_def long_url_length)
  have b: "ScraperService_init zero_slot_config = Returns 0"
    by (simp add: ScraperService_init_def zero_slot_config_def default_config_def)
  have c: "exec zero_slot_config lib_primary [''http://x.com/a''] (created 0 (new_client net_html) [''http://x.com/a''])
       [Begin 0, Resume 0]
     = Some \<lparr>free_slots = 0, phases = [AtSemaphore], http = new_client net_html\<rparr>"
    by (simp add: created_def in_phase_def set_phase_def)
  have d: "\<not> can_advance \<lparr>free_slots = 0, phases = [AtSemaphore], http = new_client net_html\<rparr>"
    by (simp add: can_advance_def)
  have e: "scrape_urls_run zero_slot_config lib_primary (new_client net_html) 0 [Begin 0, Resume 0] [''http://x.com/a'']
     = None"
    unfolding scrape_urls_run_def c by (simp add: gather_results_def)
  have f: "scrape_urls_run default_config lib_primary (new_client net_html) 6 [Begin 0, Cancel 0] [''http://x.com/a'']
     = Some (Returns [CancelledError])"
    by (simp add: scrape_urls_run_def created_def in_phase_def set_phase_def gather_results_def)
  from a b c d e f show ?thesis by (intro conjI)
qed

end
